theory Spec2Isabelle
  imports Main "HOL-Library.Sublist"
begin

section \<open>Data model\<close>

text \<open>
  A node identifier is the path of child names from the root: React builds the identifier
  of a child as the parent's identifier followed by the child's name
  (\<^verbatim>\<open>this._rootNodeID + name\<close>), and the registry recovers the parent by dropping
  the last name. A widget handle stands for a blessed node object; handle values are
  the order of creation.
\<close>

type_synonym node_id = "nat list"
type_synonym handle = nat

text \<open>
  Prop values. A function value is identified by a number; \<^verbatim>\<open>typeof v === 'function'\<close>
  holds exactly for \<open>PFun\<close>.
\<close>

datatype propval = PFun nat | PStr string | PNum int | PBool bool

type_synonym options = "(string \<times> propval) list"

text \<open>
  The \<^verbatim>\<open>children\<close> entry of a props object: the key is absent (reading it gives
  \<^verbatim>\<open>undefined\<close>), or it holds a falsy value (\<^verbatim>\<open>null\<close>, \<^verbatim>\<open>false\<close>), a single
  element, or an array of elements. Primitive (text) children belong to the child list
  collaborator and are not part of this model.
\<close>

datatype 'e children_prop = NoChildrenKey | FalsyChildren | OneChild 'e | ManyChildren "'e list"

text \<open>
  A virtual element \<^verbatim>\<open>{type, props}\<close>. The props object is kept as the source
  destructures it, \<^verbatim>\<open>{children, ...options} = props\<close>: the options and the children.
\<close>

datatype element =
  Element (etype: string) (eoptions: options) (echildren: "element children_prop")

text \<open>
  A component instance (\<^verbatim>\<open>ReactBlessedComponent\<close>). \<open>ref\<close> is the identity of the
  object: the event dispatcher installed at mount closes over \<^verbatim>\<open>this\<close>.
  \<open>rootNodeID\<close> and \<open>renderedChildren\<close> are \<open>None\<close> for \<^verbatim>\<open>null\<close>. The fields
  the class sets in its constructor and never reads (\<^verbatim>\<open>_tag\<close>, \<^verbatim>\<open>_previousStyle\<close>,
  ...) are left out. Child instances are owned by their parent alone, so they are nested
  by value.
\<close>

datatype component =
  Component (ref: nat) (currentElement: element) (rootNodeID: "node_id option")
    (renderedChildren: "component list option")

datatype error = UnknownWidgetType string | UnknownNode | NotAPooledInstance

text \<open>
  Every call the component makes on its collaborators, in the order made: the widget
  library (\<open>CreateWidget\<close>, \<open>OnAny\<close>, \<open>Append\<close>, \<open>OffAny\<close>, \<open>Remove\<close>,
  \<open>DebouncedRender\<close>), the option updater (\<open>Update\<close>) and the registry
  (\<open>Add\<close>, \<open>Drop\<close>).
\<close>

datatype event =
    CreateWidget string options handle
  | OnAny handle nat
  | Append handle handle
  | Add node_id handle
  | Update handle options
  | OffAny handle
  | Remove handle handle
  | Drop node_id
  | DebouncedRender

text \<open>
  The mutable world the component works on: the registry object
  (\<open>blessedNodes\<close>, \<open>screen\<close>), the widget library's objects (the children of every
  widget, the component whose dispatcher listens on it, the next handle to hand out), the
  next object identity for a component instance, and the log of calls.
\<close>

record world =
  blessedNodes :: "node_id \<rightharpoonup> handle"
  screen :: handle
  nextHandle :: handle
  wchildren :: "handle \<Rightarrow> handle list"
  listener :: "handle \<Rightarrow> nat option"
  nextRef :: nat
  trace :: "event list"

text \<open>
  The pure functions the component imports and this repository's files under src do
  not define: whether \<^verbatim>\<open>blessed[type]\<close> exists, \<^verbatim>\<open>solveClass\<close> and lodash's
  \<^verbatim>\<open>startCase\<close>. They are parameters of the model.
\<close>

record env =
  blessed :: "string \<Rightarrow> bool"
  solveClass :: "options \<Rightarrow> options"
  startCase :: "string \<Rightarrow> string"

type_synonym 'a result = "(error + 'a) \<times> world"

section \<open>Collaborators\<close>

subsection \<open>The registry (ReactBlessedIDOperations)\<close>

text \<open>
  Modelled from the spec: \<^verbatim>\<open>ReactBlessedIDOperations\<close> is imported by the component and
  is not among the source files. The spec's Widget Registry: \<^verbatim>\<open>add(identifier,
  widgetHandle)\<close>, \<^verbatim>\<open>drop(identifier)\<close>, \<^verbatim>\<open>get(identifier)\<close> giving the widget handle
  or failing with \<open>UnknownNode\<close>, and \<^verbatim>\<open>getParent(identifier)\<close>, where a root
  identifier maps to the root display surface and any other identifier to the widget of
  its parent identifier.
\<close>

definition idops_add :: "node_id \<Rightarrow> handle \<Rightarrow> world \<Rightarrow> world" where
  "idops_add ID node w =
     w\<lparr>blessedNodes := (blessedNodes w)(ID \<mapsto> node), trace := trace w @ [Add ID node]\<rparr>"

definition idops_get :: "node_id \<Rightarrow> world \<Rightarrow> error + handle" where
  "idops_get ID w = (case blessedNodes w ID of None \<Rightarrow> Inl UnknownNode | Some node \<Rightarrow> Inr node)"

definition idops_getParent :: "node_id \<Rightarrow> world \<Rightarrow> error + handle" where
  "idops_getParent ID w = (if length ID \<le> 1 then Inr (screen w) else idops_get (butlast ID) w)"

definition idops_drop :: "node_id \<Rightarrow> world \<Rightarrow> world" where
  "idops_drop ID w = w\<lparr>blessedNodes := (blessedNodes w)(ID := None), trace := trace w @ [Drop ID]\<rparr>"

subsection \<open>The widget library (blessed) and the option updater\<close>

text \<open>
  Modelled from the spec: the widget library and \<^verbatim>\<open>update\<close> are imported and are not
  among the source files. The spec's operations on the library: \<^verbatim>\<open>createWidget(type,
  options)\<close> gives a new handle, \<^verbatim>\<open>attach\<close> makes the child the last child of the
  parent, \<^verbatim>\<open>detach\<close> removes it, \<^verbatim>\<open>onAnyEvent\<close> installs a dispatcher,
  \<^verbatim>\<open>offAllEvents\<close> removes the listeners, \<^verbatim>\<open>applyOptions\<close> changes the widget in
  place and \<^verbatim>\<open>requestDebouncedRedraw\<close> asks for a redraw. Each call is logged.
\<close>

definition createWidget :: "string \<Rightarrow> options \<Rightarrow> world \<Rightarrow> handle \<times> world" where
  "createWidget type opts w =
     (nextHandle w,
      w\<lparr>nextHandle := Suc (nextHandle w),
        wchildren := (wchildren w)(nextHandle w := []),
        listener := (listener w)(nextHandle w := None),
        trace := trace w @ [CreateWidget type opts (nextHandle w)]\<rparr>)"

definition onAny :: "handle \<Rightarrow> nat \<Rightarrow> world \<Rightarrow> world" where
  "onAny node this w =
     w\<lparr>listener := (listener w)(node \<mapsto> this), trace := trace w @ [OnAny node this]\<rparr>"

definition append_node :: "handle \<Rightarrow> handle \<Rightarrow> world \<Rightarrow> world" where
  "append_node parent node w =
     w\<lparr>wchildren := (wchildren w)(parent := wchildren w parent @ [node]),
       trace := trace w @ [Append parent node]\<rparr>"

definition offAny :: "handle \<Rightarrow> world \<Rightarrow> world" where
  "offAny node w = w\<lparr>listener := (listener w)(node := None), trace := trace w @ [OffAny node]\<rparr>"

definition remove_node :: "handle \<Rightarrow> handle \<Rightarrow> world \<Rightarrow> world" where
  "remove_node parent node w =
     w\<lparr>wchildren := (wchildren w)(parent := remove1 node (wchildren w parent)),
       trace := trace w @ [Remove parent node]\<rparr>"

definition update_node :: "handle \<Rightarrow> options \<Rightarrow> world \<Rightarrow> world" where
  "update_node node opts w = w\<lparr>trace := trace w @ [Update node opts]\<rparr>"

definition debouncedRender :: "world \<Rightarrow> world" where
  "debouncedRender w = w\<lparr>trace := trace w @ [DebouncedRender]\<rparr>"

section \<open>ReactBlessedComponent\<close>

text \<open>
  \<^verbatim>\<open>[].concat(children || [])\<close>: an absent or falsy \<^verbatim>\<open>children\<close> gives the empty
  array, a single element a one-element array, an array itself.
\<close>

fun childrenToUse :: "'e children_prop \<Rightarrow> 'e list" where
  "childrenToUse NoChildrenKey = []"
| "childrenToUse FalsyChildren = []"
| "childrenToUse (OneChild e) = [e]"
| "childrenToUse (ManyChildren es) = es"

text \<open>
  \<^verbatim>\<open>mountNode(parent, element)\<close>: the invariant on \<^verbatim>\<open>blessed[type]\<close>, then the widget is
  created from the solved options, the dispatcher of this instance is installed and the
  widget is appended to the parent.
\<close>

definition mountNode :: "env \<Rightarrow> nat \<Rightarrow> handle \<Rightarrow> element \<Rightarrow> world \<Rightarrow> handle result" where
  "mountNode E this parent element w =
     (if \<not> blessed E (etype element) then (Inl (UnknownWidgetType (etype element)), w)
      else
        let (node, w1) = createWidget (etype element) (solveClass E (eoptions element)) w;
            w2 = onAny node this w1;
            w3 = append_node parent node w2
        in (Inr node, w3))"

text \<open>
  The dispatcher installed by \<^verbatim>\<open>mountNode\<close>, run on the instance as it is when the
  event fires: the handler is the prop \<^verbatim>\<open>'on' + startCase(type)\<close> of
  \<^verbatim>\<open>this._currentElement\<close> (never the \<^verbatim>\<open>children\<close> key, whose name does not start with
  \<^verbatim>\<open>on\<close>). The result is the call it makes, the handler with the event's arguments, or
  \<open>None\<close> when it makes none.
\<close>

definition dispatcher :: "env \<Rightarrow> component \<Rightarrow> string \<Rightarrow> propval list \<Rightarrow> (nat \<times> propval list) option" where
  "dispatcher E this type args =
     (case map_of (eoptions (currentElement this)) (''on'' @ startCase E type) of
        Some (PFun handler) \<Rightarrow> Some (handler, args)
      | _ \<Rightarrow> None)"

subsection \<open>Instances (instantiateReactComponent)\<close>

text \<open>
  Modelled from the spec: a component instance is created on the first mount of a tree
  position by React's \<^verbatim>\<open>instantiateReactComponent\<close>, which is not among the source
  files; it runs the class's \<^verbatim>\<open>constructor\<close> (identifier and rendered children
  \<^verbatim>\<open>null\<close>) and then \<^verbatim>\<open>construct(element)\<close>, which sets \<^verbatim>\<open>_currentElement\<close>.
\<close>

definition instantiate :: "element \<Rightarrow> world \<Rightarrow> component \<times> world" where
  "instantiate element w =
     (Component (nextRef w) element None None, w\<lparr>nextRef := Suc (nextRef w)\<rparr>)"

fun instantiateChildren :: "element list \<Rightarrow> world \<Rightarrow> component list \<times> world" where
  "instantiateChildren [] w = ([], w)"
| "instantiateChildren (e # es) w =
     (let (c, w1) = instantiate e w;
          (cs, w2) = instantiateChildren es w1
      in (c # cs, w2))"

text \<open>The number of elements of a virtual tree; the recursions below descend along it.\<close>

primrec child_sum :: "nat children_prop \<Rightarrow> nat" where
  "child_sum NoChildrenKey = 0"
| "child_sum FalsyChildren = 0"
| "child_sum (OneChild n) = n"
| "child_sum (ManyChildren ns) = sum_list ns"

primrec esize :: "element \<Rightarrow> nat" where
  "esize (Element t opts ch) = Suc (child_sum (map_children_prop esize ch))"

lemma child_sum_map: "child_sum (map_children_prop f ch) = sum_list (map f (childrenToUse ch))"
  by (cases ch) simp_all

lemma esize_children: "esize e = Suc (sum_list (map esize (childrenToUse (echildren e))))"
  by (cases e) (simp add: child_sum_map)

lemma esize_pos: "0 < esize e"
  by (cases e) simp

lemma instantiateChildren_elements:
  "instantiateChildren es w = (cs, w') \<Longrightarrow> map currentElement cs = es"
  by (induction es arbitrary: w cs w') (auto simp: instantiate_def split: prod.splits)

lemma instantiateChildren_fst:
  "map currentElement (fst (instantiateChildren es w)) = es"
  by (cases "instantiateChildren es w") (simp add: instantiateChildren_elements)

subsection \<open>Mounting\<close>

text \<open>
  \<^verbatim>\<open>mountComponent(rootID, transaction, context)\<close>. The transaction and the context are
  only handed on to the children and are left out. The method stores the identifier in
  the instance, reads the parent widget from the registry, mounts the node, adds the
  registry entry, mounts the children and asks for a redraw. When a call fails, the error
  and the world as it is at that moment are returned; the instance of a failed mount is
  not returned.
\<close>

text \<open>
  Modelled from the spec: \<open>mountEach\<close> is \<^verbatim>\<open>mountChildren\<close> of React's
  \<^verbatim>\<open>ReactMultiChild\<close> mixin, which the class extends and which is not among the
  source files. By the spec the initial mount order equals the order of the virtual
  children. The children are instantiated, then mounted one after the other in that
  order, child number \<open>i\<close> under the identifier of its parent followed by \<open>i\<close>; the
  mounted instances become \<^verbatim>\<open>_renderedChildren\<close>.
\<close>

function (sequential) mountComponent :: "env \<Rightarrow> component \<Rightarrow> node_id \<Rightarrow> world \<Rightarrow> component result"
  and mountEach :: "env \<Rightarrow> node_id \<Rightarrow> nat \<Rightarrow> component list \<Rightarrow> world \<Rightarrow> component list result"
where
  "mountComponent E (Component this element rid rc) rootID w =
     (case idops_getParent rootID w of
        Inl e \<Rightarrow> (Inl e, w)
      | Inr parent \<Rightarrow>
          (case mountNode E this parent element w of
             (Inl e, w1) \<Rightarrow> (Inl e, w1)
           | (Inr node, w1) \<Rightarrow>
               (let w2 = idops_add rootID node w1;
                    (children, w3) = instantiateChildren (childrenToUse (echildren element)) w2
                in case mountEach E rootID 0 children w3 of
                     (Inl e, w4) \<Rightarrow> (Inl e, w4)
                   | (Inr mounted, w4) \<Rightarrow>
                       (Inr (Component this element (Some rootID) (Some mounted)),
                        debouncedRender w4))))"
| "mountEach E rootID i [] w = (Inr [], w)"
| "mountEach E rootID i (child # rest) w =
     (case mountComponent E child (rootID @ [i]) w of
        (Inl e, w1) \<Rightarrow> (Inl e, w1)
      | (Inr child', w1) \<Rightarrow>
          (case mountEach E rootID (Suc i) rest w1 of
             (Inl e, w2) \<Rightarrow> (Inl e, w2)
           | (Inr rest', w2) \<Rightarrow> (Inr (child' # rest'), w2)))"
  by pat_completeness auto
termination
  apply (relation "measure (\<lambda>x. case x of
      Inl (E, c, rootID, w) \<Rightarrow> 2 * esize (currentElement c)
    | Inr (E, rootID, i, cs, w) \<Rightarrow> 2 * sum_list (map (esize \<circ> currentElement) cs) + 1)")
  subgoal by simp
  subgoal for E this element
    by (simp add: esize_children[of element] case_prod_unfold instantiateChildren_fst flip: map_map)
  subgoal by simp
  subgoal by (simp add: esize_pos)
  done

subsection \<open>Unmounting\<close>

fun rendered :: "component list option \<Rightarrow> component list" where
  "rendered None = []"
| "rendered (Some cs) = cs"

lemma size_rendered [termination_simp]:
  "size_list size (rendered rc) \<le> size_option (size_list size) rc"
  by (cases rc) simp_all

text \<open>
  \<^verbatim>\<open>unmountComponent()\<close>: the children are unmounted, the parent widget and the
  widget of the node are read from the registry, the listeners are removed, the widget
  is removed from its parent, the registry entry is dropped and the identifier is set
  to \<^verbatim>\<open>null\<close>. A \<^verbatim>\<open>null\<close> identifier is in no registry entry, so the registry fails
  on it with \<open>UnknownNode\<close>.
\<close>

text \<open>
  Modelled from the spec: \<open>unmountEach\<close> is \<^verbatim>\<open>unmountChildren\<close> of the mixin, which
  is not among the source files. By the spec all children are unmounted, recursively.
  Every rendered child is unmounted, in order, and \<^verbatim>\<open>_renderedChildren\<close> is set to
  \<^verbatim>\<open>null\<close>.
\<close>

fun unmountComponent :: "component \<Rightarrow> world \<Rightarrow> component result"
  and unmountEach :: "component list \<Rightarrow> world \<Rightarrow> unit result"
where
  "unmountComponent (Component this element rid rc) w =
     (case unmountEach (rendered rc) w of
        (Inl e, w1) \<Rightarrow> (Inl e, w1)
      | (Inr u, w1) \<Rightarrow>
          (case rid of
             None \<Rightarrow> (Inl UnknownNode, w1)
           | Some ID \<Rightarrow>
               (case idops_getParent ID w1 of
                  Inl e \<Rightarrow> (Inl e, w1)
                | Inr parent \<Rightarrow>
                    (case idops_get ID w1 of
                       Inl e \<Rightarrow> (Inl e, w1)
                     | Inr node \<Rightarrow>
                         (let w2 = offAny node w1;
                              w3 = remove_node parent node w2;
                              w4 = idops_drop ID w3
                          in (Inr (Component this element None None), w4))))))"
| "unmountEach [] w = (Inr (), w)"
| "unmountEach (child # rest) w =
     (case unmountComponent child w of
        (Inl e, w1) \<Rightarrow> (Inl e, w1)
      | (Inr child', w1) \<Rightarrow> unmountEach rest w1)"

subsection \<open>Updating\<close>

text \<open>
  Modelled from the spec: \<^verbatim>\<open>updateChildren\<close> of the mixin is not among the source
  files. It is the spec's Child List Reconciler, which decides per child slot between its
  three delegates (update, unmount, mount). The model is React's reconciler for children
  without keys, named by their position. First every slot of the new children is
  visited in order: a previous child of the same type receives the new element; any other
  previous child is unmounted and a new instance is created. Then the previous children
  beyond the new children are unmounted. At last the new instances are mounted in order,
  each under the identifier of the parent followed by its position.
\<close>

datatype slot = Kept component | Fresh component

definition shouldUpdateReactComponent :: "element \<Rightarrow> element \<Rightarrow> bool" where
  "shouldUpdateReactComponent prevElement nextElement \<longleftrightarrow> etype prevElement = etype nextElement"

fun mountFresh :: "env \<Rightarrow> node_id \<Rightarrow> nat \<Rightarrow> slot list \<Rightarrow> world \<Rightarrow> component list result" where
  "mountFresh E rootID i [] w = (Inr [], w)"
| "mountFresh E rootID i (Kept child # rest) w =
     (case mountFresh E rootID (Suc i) rest w of
        (Inl e, w1) \<Rightarrow> (Inl e, w1)
      | (Inr rest', w1) \<Rightarrow> (Inr (child # rest'), w1))"
| "mountFresh E rootID i (Fresh child # rest) w =
     (case mountComponent E child (rootID @ [i]) w of
        (Inl e, w1) \<Rightarrow> (Inl e, w1)
      | (Inr child', w1) \<Rightarrow>
          (case mountFresh E rootID (Suc i) rest w1 of
             (Inl e, w2) \<Rightarrow> (Inl e, w2)
           | (Inr rest', w2) \<Rightarrow> (Inr (child' # rest'), w2)))"

text \<open>
  \<^verbatim>\<open>receiveComponent(nextElement, prevElement, transaction, context)\<close>. The last three
  parameters are only handed on and are left out. The method reads the widget from the
  registry under \<^verbatim>\<open>_rootNodeID\<close>, applies the solved options of \<^verbatim>\<open>nextElement\<close> to it,
  updates the children and asks for a redraw. It assigns no field of the instance
  itself; \<^verbatim>\<open>updateChildren\<close> replaces \<^verbatim>\<open>_renderedChildren\<close>. \<open>reconcileEach\<close> is
  the first two steps of \<^verbatim>\<open>updateChildren\<close> as modelled above, \<open>mountFresh\<close> the last.
\<close>

function (sequential) receiveComponent :: "env \<Rightarrow> component \<Rightarrow> element \<Rightarrow> world \<Rightarrow> component result"
  and reconcileEach :: "env \<Rightarrow> component list \<Rightarrow> element list \<Rightarrow> world \<Rightarrow> slot list result"
where
  "receiveComponent E (Component this element rid rc) nextElement w =
     (case rid of
        None \<Rightarrow> (Inl UnknownNode, w)
      | Some ID \<Rightarrow>
          (case idops_get ID w of
             Inl e \<Rightarrow> (Inl e, w)
           | Inr node \<Rightarrow>
               (let w1 = update_node node (solveClass E (eoptions nextElement)) w
                in case reconcileEach E (rendered rc) (childrenToUse (echildren nextElement)) w1 of
                     (Inl e, w2) \<Rightarrow> (Inl e, w2)
                   | (Inr slots, w2) \<Rightarrow>
                       (case mountFresh E ID 0 slots w2 of
                          (Inl e, w3) \<Rightarrow> (Inl e, w3)
                        | (Inr children, w3) \<Rightarrow>
                            (Inr (Component this element rid (Some children)),
                             debouncedRender w3)))))"
| "reconcileEach E prev [] w =
     (case unmountEach prev w of
        (Inl e, w1) \<Rightarrow> (Inl e, w1)
      | (Inr u, w1) \<Rightarrow> (Inr [], w1))"
| "reconcileEach E [] (nextElement # nexts) w =
     (let (child, w1) = instantiate nextElement w
      in case reconcileEach E [] nexts w1 of
           (Inl e, w2) \<Rightarrow> (Inl e, w2)
         | (Inr slots, w2) \<Rightarrow> (Inr (Fresh child # slots), w2))"
| "reconcileEach E (prevChild # prev) (nextElement # nexts) w =
     (if shouldUpdateReactComponent (currentElement prevChild) nextElement then
        (case receiveComponent E prevChild nextElement w of
           (Inl e, w1) \<Rightarrow> (Inl e, w1)
         | (Inr child, w1) \<Rightarrow>
             (case reconcileEach E prev nexts w1 of
                (Inl e, w2) \<Rightarrow> (Inl e, w2)
              | (Inr slots, w2) \<Rightarrow> (Inr (Kept child # slots), w2)))
      else
        (case unmountComponent prevChild w of
           (Inl e, w1) \<Rightarrow> (Inl e, w1)
         | (Inr u, w1) \<Rightarrow>
             (let (child, w2) = instantiate nextElement w1
              in case reconcileEach E prev nexts w2 of
                   (Inl e, w3) \<Rightarrow> (Inl e, w3)
                 | (Inr slots, w3) \<Rightarrow> (Inr (Fresh child # slots), w3))))"
  by pat_completeness auto
termination
  apply (relation "measure (\<lambda>x. case x of
      Inl (E, c, nextElement, w) \<Rightarrow> 2 * esize nextElement
    | Inr (E, prev, nexts, w) \<Rightarrow> 2 * sum_list (map esize nexts) + 1)")
  subgoal by simp
  subgoal for E this element rid rc nextElement
    by (simp add: esize_children[of nextElement])
  subgoal by (simp add: esize_pos)
  subgoal by simp
  subgoal by (simp add: esize_pos)
  subgoal by (simp add: esize_pos)
  done

text \<open>A sequence of updates of one instance, stopping at the first failure.\<close>

fun receiveAll :: "env \<Rightarrow> component \<Rightarrow> element list \<Rightarrow> world \<Rightarrow> component result" where
  "receiveAll E c [] w = (Inr c, w)"
| "receiveAll E c (nextElement # nexts) w =
     (case receiveComponent E c nextElement w of
        (Inl e, w1) \<Rightarrow> (Inl e, w1)
      | (Inr c', w1) \<Rightarrow> receiveAll E c' nexts w1)"

subsection \<open>Events\<close>

text \<open>
  A widget fires an event: the library calls the listener installed by \<^verbatim>\<open>onAny\<close>, the
  closure of \<^verbatim>\<open>mountNode\<close>. Its \<^verbatim>\<open>this\<close> is the instance with the recorded identity,
  found in the component tree as it is now.
\<close>

fun find_component :: "nat \<Rightarrow> component \<Rightarrow> component option"
  and find_in :: "nat \<Rightarrow> component list \<Rightarrow> component option"
where
  "find_component r (Component this element rid rc) =
     (if this = r then Some (Component this element rid rc) else find_in r (rendered rc))"
| "find_in r [] = None"
| "find_in r (c # cs) =
     (case find_component r c of Some found \<Rightarrow> Some found | None \<Rightarrow> find_in r cs)"

definition fire :: "env \<Rightarrow> component \<Rightarrow> world \<Rightarrow> handle \<Rightarrow> string \<Rightarrow> propval list \<Rightarrow> (nat \<times> propval list) option" where
  "fire E root w node type args =
     (case listener w node of
        None \<Rightarrow> None
      | Some r \<Rightarrow>
          (case find_component r root of
             None \<Rightarrow> None
           | Some this \<Rightarrow> dispatcher E this type args))"

section \<open>ReactBlessedReconcileTransaction\<close>

subsection \<open>The callback queue and its pool\<close>

text \<open>
  Modelled from the spec: React's \<^verbatim>\<open>CallbackQueue\<close> and \<^verbatim>\<open>PooledClass\<close> are imported
  by the transaction and are not among the source files. The spec's Pending Callback
  Queue is an ordered sequence of callbacks that is empty when a pass starts; its design
  notes say the queues are pooled and recycled. \<open>callbacks\<close> is the content of every
  queue object, \<open>instancePool\<close> the released queues. \<^verbatim>\<open>getPooled\<close> takes the last
  released queue, or a new one when there is none, and runs the queue's constructor on
  it, which empties it. \<^verbatim>\<open>release\<close> runs the queue's destructor, which empties it,
  and puts it back unless the pool is full.
\<close>

record pools =
  callbacks :: "nat \<Rightarrow> nat list"
  instancePool :: "nat list"
  nextQueue :: nat

definition poolSize :: nat where
  "poolSize = 10"

definition CallbackQueue_init :: "nat \<Rightarrow> pools \<Rightarrow> pools" where
  "CallbackQueue_init q P = P\<lparr>callbacks := (callbacks P)(q := [])\<rparr>"

definition CallbackQueue_getPooled :: "pools \<Rightarrow> nat \<times> pools" where
  "CallbackQueue_getPooled P =
     (if instancePool P \<noteq> [] then
        (last (instancePool P),
         CallbackQueue_init (last (instancePool P)) (P\<lparr>instancePool := butlast (instancePool P)\<rparr>))
      else
        (nextQueue P, CallbackQueue_init (nextQueue P) (P\<lparr>nextQueue := Suc (nextQueue P)\<rparr>)))"

definition CallbackQueue_enqueue :: "nat \<Rightarrow> nat \<Rightarrow> pools \<Rightarrow> pools" where
  "CallbackQueue_enqueue q callback P =
     P\<lparr>callbacks := (callbacks P)(q := callbacks P q @ [callback])\<rparr>"

definition CallbackQueue_release :: "nat \<Rightarrow> pools \<Rightarrow> pools" where
  "CallbackQueue_release q P =
     (let P1 = CallbackQueue_init q P
      in if length (instancePool P1) < poolSize
         then P1\<lparr>instancePool := instancePool P1 @ [q]\<rparr> else P1)"

text \<open>The released queues are pairwise different objects that have been allocated.\<close>

definition pool_ok :: "pools \<Rightarrow> bool" where
  "pool_ok P \<longleftrightarrow> distinct (instancePool P) \<and> list_all (\<lambda>q. q < nextQueue P) (instancePool P)"

subsection \<open>The transaction\<close>

text \<open>
  The transaction object: \<open>reactMountReady\<close> is \<open>None\<close> for \<^verbatim>\<open>null\<close>.
  \<^verbatim>\<open>reinitializeTransaction\<close> comes from React's \<^verbatim>\<open>Transaction.Mixin\<close>; it stores the
  wrappers of \<^verbatim>\<open>getTransactionWrappers\<close> and marks the transaction as not running.
  The constructor runs on a new object or on a released transaction taken from the
  transaction pool, \<open>this\<close>. Releasing \<^verbatim>\<open>null\<close> to the queue pool violates the pool's
  invariant.
\<close>

record transaction =
  reactMountReady :: "nat option"
  transactionWrappers :: "nat list"
  isInTransaction :: bool

definition getTransactionWrappers :: "nat list" where
  "getTransactionWrappers = []"

definition reinitializeTransaction :: "transaction \<Rightarrow> transaction" where
  "reinitializeTransaction this =
     this\<lparr>transactionWrappers := getTransactionWrappers, isInTransaction := False\<rparr>"

definition ReactBlessedReconcileTransaction :: "transaction \<Rightarrow> pools \<Rightarrow> transaction \<times> pools" where
  "ReactBlessedReconcileTransaction this P =
     (let t = reinitializeTransaction this;
          (q, P1) = CallbackQueue_getPooled P
      in (t\<lparr>reactMountReady := Some q\<rparr>, P1))"

definition getReactMountReady :: "transaction \<Rightarrow> nat option" where
  "getReactMountReady this = reactMountReady this"

definition destructor :: "transaction \<Rightarrow> pools \<Rightarrow> (error + transaction) \<times> pools" where
  "destructor this P =
     (case reactMountReady this of
        None \<Rightarrow> (Inl NotAPooledInstance, P)
      | Some q \<Rightarrow> (Inr (this\<lparr>reactMountReady := None\<rparr>), CallbackQueue_release q P))"

section \<open>Well-formed component trees\<close>

text \<open>
  A mounted instance carries its identifier, and its rendered children are mounted under
  the identifiers React gives them: child number \<open>i\<close> under the identifier of the
  parent followed by \<open>i\<close>. \<open>widget_of\<close> is the widget the registry holds for an
  instance.
\<close>

fun wf_comp :: "node_id \<Rightarrow> component \<Rightarrow> bool"
  and wf_comps :: "node_id \<Rightarrow> nat \<Rightarrow> component list \<Rightarrow> bool"
where
  "wf_comp p (Component this el rid rc) \<longleftrightarrow> rid = Some p \<and> wf_comps p 0 (rendered rc)"
| "wf_comps p i [] \<longleftrightarrow> True"
| "wf_comps p i (c # cs) \<longleftrightarrow> wf_comp (p @ [i]) c \<and> wf_comps p (Suc i) cs"


text \<open>The identifiers carried by an instance and the instances rendered below it.\<close>

fun ids :: "component \<Rightarrow> node_id set"
  and ids_list :: "component list \<Rightarrow> node_id set"
where
  "ids (Component this el rid rc) = set_option rid \<union> ids_list (rendered rc)"
| "ids_list [] = {}"
| "ids_list (c # cs) = ids c \<union> ids_list cs"

text \<open>The calls an unmount makes.\<close>

fun teardown :: "event \<Rightarrow> bool" where
  "teardown (OffAny node) = True"
| "teardown (Remove parent node) = True"
| "teardown (Drop ID) = True"
| "teardown e = False"

text \<open>
  The slots between the two steps of \<^verbatim>\<open>updateChildren\<close>: a kept child is mounted
  under the identifier of its position.
\<close>

fun slots_wf :: "node_id \<Rightarrow> nat \<Rightarrow> slot list \<Rightarrow> bool" where
  "slots_wf p i [] \<longleftrightarrow> True"
| "slots_wf p i (Kept c # rest) \<longleftrightarrow> wf_comp (p @ [i]) c \<and> slots_wf p (Suc i) rest"
| "slots_wf p i (Fresh c # rest) \<longleftrightarrow> slots_wf p (Suc i) rest"

text \<open>
  The calls that bind or unbind a given identifier in the registry, and the call that
  creates a given widget.
\<close>

fun touches :: "node_id \<Rightarrow> event \<Rightarrow> bool" where
  "touches p (Add q node) \<longleftrightarrow> q = p"
| "touches p (Drop q) \<longleftrightarrow> q = p"
| "touches p e \<longleftrightarrow> False"

fun creates :: "handle \<Rightarrow> event \<Rightarrow> bool" where
  "creates h (CreateWidget t opts node) \<longleftrightarrow> node = h"
| "creates h e \<longleftrightarrow> False"

text \<open>
  The widgets a sequence of calls creates all belong to nodes mounted strictly below a
  given identifier: every call in it that creates a widget comes with a call in it that
  adds this widget to the registry under an identifier strictly below the given one, and
  the sequence creates as many widgets as it adds registry entries.
\<close>

fun registers :: "node_id \<Rightarrow> handle \<Rightarrow> event \<Rightarrow> bool" where
  "registers p h (Add ID node) \<longleftrightarrow> node = h \<and> strict_prefix p ID"
| "registers p h e \<longleftrightarrow> False"

fun mounted_below :: "node_id \<Rightarrow> event list \<Rightarrow> event \<Rightarrow> bool" where
  "mounted_below p evs (CreateWidget t opts h) \<longleftrightarrow> list_ex (registers p h) evs"
| "mounted_below p evs e \<longleftrightarrow> True"

fun is_create :: "event \<Rightarrow> bool" where
  "is_create (CreateWidget t opts h) = True"
| "is_create e = False"

fun is_add :: "event \<Rightarrow> bool" where
  "is_add (Add ID node) = True"
| "is_add e = False"

definition creates_only_below :: "node_id \<Rightarrow> event list \<Rightarrow> bool" where
  "creates_only_below p evs \<longleftrightarrow>
     list_all (mounted_below p evs) evs \<and>
     length (filter is_create evs) = length (filter is_add evs)"

text \<open>
  The redraw requests in the log, and the calls that every mount (\<^verbatim>\<open>add\<close>) and every
  update (\<^verbatim>\<open>update\<close>) makes exactly once.
\<close>

fun is_mutation :: "event \<Rightarrow> bool" where
  "is_mutation (Add ID node) = True"
| "is_mutation (Update node opts) = True"
| "is_mutation e = False"

definition redraws :: "world \<Rightarrow> nat" where
  "redraws w = length (filter (\<lambda>e. e = DebouncedRender) (trace w))"

definition mutations :: "world \<Rightarrow> nat" where
  "mutations w = length (filter is_mutation (trace w))"

text \<open>
  The screen and every widget in the registry have been created: handles are given out
  in order of creation, so they lie below the next handle.
\<close>

definition world_ok :: "world \<Rightarrow> bool" where
  "world_ok w \<longleftrightarrow>
     screen w < nextHandle w \<and> (\<forall>ID node. blessedNodes w ID = Some node \<longrightarrow> node < nextHandle w)"

section \<open>Example inputs\<close>

text \<open>
  A world in which nothing is mounted yet: the screen is widget 0. And an environment in
  which the widget library knows the kinds \<^verbatim>\<open>box\<close> and \<^verbatim>\<open>list\<close>, options are passed
  on as they are, and \<^verbatim>\<open>startCase\<close> is what lodash gives on the event names used
  below.
\<close>

definition empty_world :: world where
  "empty_world =
     \<lparr>blessedNodes = Map.empty, screen = 0, nextHandle = 1, wchildren = (\<lambda>_. []),
      listener = (\<lambda>_. None), nextRef = 1, trace = []\<rparr>"

definition example_env :: env where
  "example_env =
     \<lparr>blessed = (\<lambda>t. t = ''box'' \<or> t = ''list''), solveClass = (\<lambda>opts. opts),
      startCase = (\<lambda>s. if s = ''click'' then ''Click'' else if s = ''key'' then ''Key''
                      else if s = ''blur'' then ''Blur'' else s)\<rparr>"

text \<open>
  A released transaction, and a pool that holds one released queue, number 3; the
  callbacks in \<open>stale_pools\<close> are what an earlier pass left in every queue.
\<close>

definition released_transaction :: transaction where
  "released_transaction = \<lparr>reactMountReady = None, transactionWrappers = [], isInTransaction = False\<rparr>"

definition stale_pools :: pools where
  "stale_pools = \<lparr>callbacks = (\<lambda>_. [7]), instancePool = [3], nextQueue = 4\<rparr>"

text \<open>A box with a click handler (function 1) and a key prop that is no function.\<close>

definition clickable_box :: element where
  "clickable_box = Element ''box'' [(''onClick'', PFun 1), (''onKey'', PStr ''x'')] NoChildrenKey"

text \<open>A box with two children, a list and a box.\<close>

definition two_children :: element where
  "two_children =
     Element ''box'' []
       (ManyChildren [Element ''list'' [] NoChildrenKey, Element ''box'' [] (ManyChildren [])])"

text \<open>The instance tree that mounting \<open>two_children\<close> at the root gives.\<close>

definition two_children_mounted :: component where
  "two_children_mounted =
     Component 0 two_children (Some [0])
       (Some [Component 1 (Element ''list'' [] NoChildrenKey) (Some [0, 0]) (Some []),
              Component 2 (Element ''box'' [] (ManyChildren [])) (Some [0, 1]) (Some [])])"





text \<open>The spec's example of an update: a box of width 10, then of width 20.\<close>

definition box10 :: element where
  "box10 = Element ''box'' [(''width'', PNum 10)] NoChildrenKey"

definition box20 :: element where
  "box20 = Element ''box'' [(''width'', PNum 20)] NoChildrenKey"

section \<open>Mounting an unknown widget type\<close>

text \<open>
  C2. When the type of the element names no widget kind of the library, \<^verbatim>\<open>mountNode\<close>
  fails with \<open>UnknownWidgetType\<close> and so does \<^verbatim>\<open>mountComponent\<close> whenever the registry
  has a parent widget for the identifier; in every case the mount fails and leaves the
  world as it was: no widget is created or appended and the registry gets no entry.
\<close>

theorem mount_unknown_type_contained:
  assumes "\<not> blessed E (etype element)"
  shows "mountNode E this parent element w = (Inl (UnknownWidgetType (etype element)), w) \<and>
         (\<exists>e. mountComponent E (Component this element rid rc) rootID w = (Inl e, w) \<and>
              (\<forall>parent. idops_getParent rootID w = Inr parent \<longrightarrow>
                 e = UnknownWidgetType (etype element)))"
  using assms by (simp add: mountNode_def split: sum.splits)

theorem mount_unknown_type_contained_witness:
  "\<not> blessed example_env ''NoSuchWidget'' \<and>
   idops_getParent [0] empty_world = Inr 0 \<and>
   mountComponent example_env
       (Component 0 (Element ''NoSuchWidget'' [] NoChildrenKey) None None) [0] empty_world
     = (Inl (UnknownWidgetType ''NoSuchWidget''), empty_world) \<and>
   blessedNodes empty_world [0] = None \<and> trace empty_world = []"
proof -
  have h: "\<not> blessed example_env (etype (Element ''NoSuchWidget'' [] NoChildrenKey))"
    by (simp add: example_env_def)
  have p: "idops_getParent [0] empty_world = Inr 0"
    by (simp add: idops_getParent_def empty_world_def)
  from mount_unknown_type_contained [OF h, of 0 0 empty_world None None "[0]"] p
  show ?thesis by (auto simp: example_env_def empty_world_def)
qed

section \<open>Absent children\<close>

text \<open>
  C8. An element whose props have no \<^verbatim>\<open>children\<close> key is mounted, and received in an
  update, as the same element with the empty array of children: the children handed to
  the child list reconciler are the same, mounting leaves the same world and the same
  rendered children, and an update gives the same result and world.
\<close>

theorem absent_children_as_empty:
  "childrenToUse (NoChildrenKey :: element children_prop) = childrenToUse (ManyChildren []) \<and>
   snd (mountComponent E (Component this (Element t opts NoChildrenKey) rid rc) rootID w)
     = snd (mountComponent E (Component this (Element t opts (ManyChildren [])) rid rc) rootID w) \<and>
   map_sum id renderedChildren
       (fst (mountComponent E (Component this (Element t opts NoChildrenKey) rid rc) rootID w))
     = map_sum id renderedChildren
       (fst (mountComponent E (Component this (Element t opts (ManyChildren [])) rid rc) rootID w)) \<and>
   receiveComponent E c (Element t opts NoChildrenKey) w
     = receiveComponent E c (Element t opts (ManyChildren [])) w"
  by (cases c) (simp add: mountNode_def Let_def split: option.splits sum.splits prod.splits)

section \<open>The callback queue of a pass\<close>

lemma getPooled_fresh:
  assumes "pool_ok P"
  shows "fst (CallbackQueue_getPooled P) \<notin> set (instancePool (snd (CallbackQueue_getPooled P)))"
proof (cases "instancePool P = []")
  case True
  then show ?thesis
    by (simp add: CallbackQueue_getPooled_def CallbackQueue_init_def)
next
  case False
  then have "instancePool P = butlast (instancePool P) @ [last (instancePool P)]"
    by simp
  with assms have "distinct (butlast (instancePool P) @ [last (instancePool P)])"
    by (simp add: pool_ok_def)
  then have "last (instancePool P) \<notin> set (butlast (instancePool P))"
    by simp
  with False show ?thesis
    by (simp add: CallbackQueue_getPooled_def CallbackQueue_init_def)
qed

text \<open>
  C9. The constructor of the transaction gives it a callback queue that is empty and,
  in a well-formed pool, no longer among the released queues. Whatever happened to the
  queues during the pass, the destructor succeeds, leaves the transaction without a
  queue, and releases the queue: it is emptied and, when the pool has room, back among
  the released queues.
\<close>

theorem pass_queue_lifetime:
  assumes "ReactBlessedReconcileTransaction this P = (t, P1)"
  shows "\<exists>q. getReactMountReady t = Some q \<and> callbacks P1 q = [] \<and>
           (pool_ok P \<longrightarrow> q \<notin> set (instancePool P1)) \<and>
           (\<forall>P2. \<exists>t'. destructor t P2 = (Inr t', CallbackQueue_release q P2) \<and>
                 getReactMountReady t' = None \<and>
                 callbacks (CallbackQueue_release q P2) q = [] \<and>
                 (length (instancePool P2) < poolSize \<longrightarrow>
                    q \<in> set (instancePool (CallbackQueue_release q P2))))"
  using assms getPooled_fresh[of P]
  by (auto simp: ReactBlessedReconcileTransaction_def getReactMountReady_def destructor_def Let_def
      CallbackQueue_release_def CallbackQueue_init_def CallbackQueue_getPooled_def
      split: prod.splits if_splits)

theorem pass_queue_lifetime_witness:
  "pool_ok stale_pools \<and>
   getReactMountReady (fst (ReactBlessedReconcileTransaction released_transaction stale_pools)) = Some 3 \<and>
   callbacks (snd (ReactBlessedReconcileTransaction released_transaction stale_pools)) 3 = [] \<and>
   3 \<notin> set (instancePool (snd (ReactBlessedReconcileTransaction released_transaction stale_pools))) \<and>
   (\<exists>t'. fst (destructor (fst (ReactBlessedReconcileTransaction released_transaction stale_pools))
              (CallbackQueue_enqueue 3 5
                 (snd (ReactBlessedReconcileTransaction released_transaction stale_pools)))) = Inr t' \<and>
         getReactMountReady t' = None) \<and>
   callbacks (snd (destructor (fst (ReactBlessedReconcileTransaction released_transaction stale_pools))
              (CallbackQueue_enqueue 3 5
                 (snd (ReactBlessedReconcileTransaction released_transaction stale_pools))))) 3 = []"
proof -
  have ok: "pool_ok stale_pools"
    by (simp add: pool_ok_def stale_pools_def)
  have q: "getReactMountReady (fst (ReactBlessedReconcileTransaction released_transaction stale_pools)) = Some 3"
    by (simp add: ReactBlessedReconcileTransaction_def getReactMountReady_def Let_def
        CallbackQueue_getPooled_def stale_pools_def split: prod.splits)
  have "ReactBlessedReconcileTransaction released_transaction stale_pools =
        (fst (ReactBlessedReconcileTransaction released_transaction stale_pools),
         snd (ReactBlessedReconcileTransaction released_transaction stale_pools))"
    by simp
  from pass_queue_lifetime [OF this] ok q show ?thesis
    by (metis fst_conv option.inject snd_conv)
qed

section \<open>Mounting: auxiliary facts\<close>

text \<open>
  The induction rule of \<open>mountComponent\<close> and \<open>mountEach\<close> with the environment
  fixed and the hypotheses in the direction they are used.
\<close>

lemma mount_induct [case_names Component Nil Cons]:
  assumes C: "\<And>this el rid rc p w.
      (\<And>parent node w1 children w3.
          idops_getParent p w = Inr parent \<Longrightarrow>
          mountNode E this parent el w = (Inr node, w1) \<Longrightarrow>
          instantiateChildren (childrenToUse (echildren el)) (idops_add p node w1) = (children, w3) \<Longrightarrow>
          P2 p 0 children w3) \<Longrightarrow>
      P1 (Component this el rid rc) p w"
    and N: "\<And>p i w. P2 p i [] w"
    and S: "\<And>p i child rest w.
      P1 child (p @ [i]) w \<Longrightarrow>
      (\<And>child' w1. mountComponent E child (p @ [i]) w = (Inr child', w1) \<Longrightarrow> P2 p (Suc i) rest w1) \<Longrightarrow>
      P2 p i (child # rest) w"
  shows "P1 c p w" and "P2 p i cs w"
proof -
  have "E' = E \<longrightarrow> P1 c p w" and "E' = E \<longrightarrow> P2 p i cs w" for E'
  proof (induction E' c p w and E' p i cs w rule: mountComponent_mountEach.induct)
    case (1 E' this element rid rc rootID w)
    show ?case
    proof
      assume e: "E' = E"
      show "P1 (Component this element rid rc) rootID w"
      proof (rule C)
        fix parent node w1 children w3
        assume "idops_getParent rootID w = Inr parent"
          and "mountNode E this parent element w = (Inr node, w1)"
          and "instantiateChildren (childrenToUse (echildren element)) (idops_add rootID node w1) = (children, w3)"
        then show "P2 rootID 0 children w3"
          using "1" [of parent "Inr node" w1 node "idops_add rootID node w1" "(children, w3)" children w3] e
          by simp
      qed
    qed
  next
    case (2 E' rootID i w)
    show ?case by (simp add: N)
  next
    case (3 E' rootID i child rest w)
    show ?case
    proof
      assume e: "E' = E"
      show "P2 rootID i (child # rest) w"
      proof (rule S)
        show "P1 child (rootID @ [i]) w" using "3.IH"(1) e by simp
      next
        fix child' w1
        assume "mountComponent E child (rootID @ [i]) w = (Inr child', w1)"
        then show "P2 rootID (Suc i) rest w1"
          using "3.IH"(2) [of "Inr child'" w1 child'] e by simp
      qed
    qed
  qed
  then show "P1 c p w" and "P2 p i cs w" by simp_all
qed

lemma instantiateChildren_rel:
  assumes "\<And>w. Q w w" and "\<And>a b c. Q a b \<Longrightarrow> Q b c \<Longrightarrow> Q a c"
    and "\<And>el w. Q w (snd (instantiate el w))"
  shows "Q w (snd (instantiateChildren es w))"
proof (induction es arbitrary: w)
  case Nil
  show ?case by (simp add: assms(1))
next
  case (Cons e es)
  have "Q w (snd (instantiate e w))" by (rule assms(3))
  moreover have "Q (snd (instantiate e w)) (snd (instantiateChildren es (snd (instantiate e w))))"
    by (rule Cons.IH)
  ultimately show ?case
    by (auto simp: case_prod_unfold Let_def intro: assms(2))
qed

lemma mount_rel:
  assumes refl: "\<And>w. Q w w" and trans: "\<And>a b c. Q a b \<Longrightarrow> Q b c \<Longrightarrow> Q a c"
    and node: "\<And>this parent el w. Q w (snd (mountNode E this parent el w))"
    and add: "\<And>q node w. prefix p0 q \<Longrightarrow> node < nextHandle w \<Longrightarrow> Q w (idops_add q node w)"
    and inst: "\<And>el w. Q w (snd (instantiate el w))"
    and render: "\<And>w. Q w (debouncedRender w)"
  shows "prefix p0 p \<Longrightarrow> Q w (snd (mountComponent E c p w))"
    and "prefix p0 p \<Longrightarrow> Q w (snd (mountEach E p i cs w))"
proof (induction c p w and p i cs w rule: mount_induct[of E])
  case (Component this el rid rc p w)
  show ?case
  proof (cases "idops_getParent p w")
    case (Inl e)
    then show ?thesis by (simp add: refl)
  next
    case (Inr parent)
    obtain r1 w1 where m: "mountNode E this parent el w = (r1, w1)" by (cases "mountNode E this parent el w")
    have q1: "Q w w1" using m node[of w this parent el] by simp
    show ?thesis
    proof (cases r1)
      case (Inl e)
      with Inr m q1 show ?thesis by simp
    next
      case (Inr node)
      obtain children w3 where ic: "instantiateChildren (childrenToUse (echildren el)) (idops_add p node w1) = (children, w3)"
        by (cases "instantiateChildren (childrenToUse (echildren el)) (idops_add p node w1)")
      have "node < nextHandle w1"
        using m Inr
        by (auto simp: mountNode_def createWidget_def onAny_def append_node_def split: if_splits)
      then have q2: "Q w1 (idops_add p node w1)" using add Component.prems by simp
      have q3: "Q (idops_add p node w1) w3"
        using ic instantiateChildren_rel[where Q=Q and w="idops_add p node w1" and es="childrenToUse (echildren el)", OF refl trans inst] by simp
      have q4: "Q w3 (snd (mountEach E p 0 children w3))"
        using Component.IH[OF \<open>idops_getParent p w = Inr parent\<close> m[unfolded Inr] ic Component.prems] .
      have q03: "Q w w3" using q1 q2 q3 trans by blast
      obtain r4 w4 where me: "mountEach E p 0 children w3 = (r4, w4)" by (cases "mountEach E p 0 children w3")
      have q04: "Q w w4" using me q03 q4 trans by fastforce
      show ?thesis
      proof (cases r4)
        case (Inl e)
        with \<open>idops_getParent p w = Inr parent\<close> m Inr ic me q04 show ?thesis by simp
      next
        case (Inr mounted)
        have "Q w (debouncedRender w4)" using q04 render trans by blast
        with \<open>idops_getParent p w = Inr parent\<close> m \<open>r1 = Inr node\<close> ic me Inr show ?thesis by simp
      qed
    qed
  qed
next
  case (Nil p i w)
  show ?case by (simp add: refl)
next
  case (Cons p i child rest w)
  obtain r1 w1 where m: "mountComponent E child (p @ [i]) w = (r1, w1)" by (cases "mountComponent E child (p @ [i]) w")
  have "prefix p0 (p @ [i])" using Cons.prems by (simp add: prefix_prefix)
  then have q1: "Q w w1" using m Cons.IH(1) by simp
  show ?case
  proof (cases r1)
    case (Inl e)
    with m q1 show ?thesis by simp
  next
    case (Inr child')
    have q2: "Q w1 (snd (mountEach E p (Suc i) rest w1))"
      using Cons.IH(2)[OF m[unfolded Inr] Cons.prems] .
    obtain r2 w2 where me: "mountEach E p (Suc i) rest w1 = (r2, w2)" by (cases "mountEach E p (Suc i) rest w1")
    have "Q w w2" using me q1 q2 trans by fastforce
    with m Inr me show ?thesis by (cases r2) simp_all
  qed
qed


lemmas prim_defs = mountNode_def createWidget_def onAny_def append_node_def idops_add_def
  instantiate_def debouncedRender_def Let_def

lemma mount_nextHandle:
  "nextHandle w \<le> nextHandle (snd (mountComponent E c p w))"
  "nextHandle w \<le> nextHandle (snd (mountEach E p i cs w))"
  by (rule mount_rel[where Q="\<lambda>a b. nextHandle a \<le> nextHandle b" and ?p0.0="[]"];
      simp add: prim_defs)+

lemma mount_trace_prefix:
  "prefix (trace w) (trace (snd (mountComponent E c p w)))"
  "prefix (trace w) (trace (snd (mountEach E p i cs w)))"
  by (rule mount_rel[where Q="\<lambda>a b. prefix (trace a) (trace b)" and ?p0.0="[]"];
      simp add: prim_defs)+

lemma mount_registry_frame:
  assumes "\<not> prefix p q"
  shows "blessedNodes (snd (mountComponent E c p w)) q = blessedNodes w q"
  using assms
  by (intro mount_rel(1)[where Q="\<lambda>a b. blessedNodes b q = blessedNodes a q" and ?p0.0=p])
     (auto simp: prim_defs)

lemma mount_listener_frame:
  "h < nextHandle w \<Longrightarrow> listener (snd (mountComponent E c p w)) h = listener w h"
  "h < nextHandle w \<Longrightarrow> listener (snd (mountEach E p i cs w)) h = listener w h"
  using mount_rel(1)[where Q="\<lambda>a b. h < nextHandle a \<longrightarrow> h < nextHandle b \<and> listener b h = listener a h" and ?p0.0="[]" and p=p and E=E and c=c and w=w]
    mount_rel(2)[where Q="\<lambda>a b. h < nextHandle a \<longrightarrow> h < nextHandle b \<and> listener b h = listener a h" and ?p0.0="[]" and p=p and E=E and cs=cs and i=i and w=w]
  by (auto simp: prim_defs)


lemma wf_comp_rootNodeID: "wf_comp p c \<Longrightarrow> rootNodeID c = Some p"
  by (cases c) simp

lemma instantiateChildren_snd:
  "snd (instantiateChildren es w) = w\<lparr>nextRef := nextRef w + length es\<rparr>"
  by (induction es arbitrary: w) (simp_all add: instantiate_def case_prod_unfold)

lemma instantiateChildren_world:
  "instantiateChildren es w = (cs, w') \<Longrightarrow> w' = w\<lparr>nextRef := nextRef w + length es\<rparr>"
  using instantiateChildren_snd[of es w] by simp

lemma mountComponent_Inr:
  assumes "mountComponent E (Component this el rid rc) p w = (Inr c', w')"
  obtains parent node w1 children w3 mounted w4 where
    "idops_getParent p w = Inr parent"
    "mountNode E this parent el w = (Inr node, w1)"
    "instantiateChildren (childrenToUse (echildren el)) (idops_add p node w1) = (children, w3)"
    "mountEach E p 0 children w3 = (Inr mounted, w4)"
    "c' = Component this el (Some p) (Some mounted)"
    "w' = debouncedRender w4"
  using assms by (auto split: sum.splits prod.splits simp: Let_def)

lemma mountEach_Cons_Inr:
  assumes "mountEach E p i (child # rest) w = (Inr mounted, w')"
  obtains child' w1 rest' where
    "mountComponent E child (p @ [i]) w = (Inr child', w1)"
    "mountEach E p (Suc i) rest w1 = (Inr rest', w')"
    "mounted = child' # rest'"
  using assms by (auto split: sum.splits prod.splits)

lemma mountNode_Inr:
  assumes "mountNode E this parent el w = (Inr node, w1)"
  shows "blessed E (etype el)" "node = nextHandle w"
    "w1 = w\<lparr>nextHandle := Suc (nextHandle w),
            wchildren := ((wchildren w)(nextHandle w := []))
               (parent := ((wchildren w)(nextHandle w := [])) parent @ [nextHandle w]),
            listener := (listener w)(nextHandle w \<mapsto> this),
            trace := trace w @ [CreateWidget (etype el) (solveClass E (eoptions el)) (nextHandle w),
               OnAny (nextHandle w) this, Append parent (nextHandle w)]\<rparr>"
  using assms by (auto simp: prim_defs split: if_splits)

lemma mountEach_registry_frame:
  assumes "\<And>j. i \<le> j \<Longrightarrow> \<not> prefix (p @ [j]) q"
  shows "blessedNodes (snd (mountEach E p i cs w)) q = blessedNodes w q"
  using assms
proof (induction cs arbitrary: i w)
  case Nil
  show ?case by simp
next
  case (Cons child rest)
  obtain r1 w1 where m: "mountComponent E child (p @ [i]) w = (r1, w1)"
    by (cases "mountComponent E child (p @ [i]) w")
  have f1: "blessedNodes w1 q = blessedNodes w q"
    using m mount_registry_frame[of "p @ [i]" q E child w] Cons.prems[of i] by simp
  show ?case
  proof (cases r1)
    case (Inl e)
    with m f1 show ?thesis by simp
  next
    case (Inr child')
    obtain r2 w2 where me: "mountEach E p (Suc i) rest w1 = (r2, w2)"
      by (cases "mountEach E p (Suc i) rest w1")
    have "blessedNodes w2 q = blessedNodes w1 q"
      using me Cons.IH[of "Suc i" w1] Cons.prems by simp
    with m Inr f1 me show ?thesis by (cases r2) simp_all
  qed
qed

lemma mountEach_registry_parent:
  "blessedNodes (snd (mountEach E p i cs w)) p = blessedNodes w p"
  by (rule mountEach_registry_frame) simp


lemma mount_struct:
  shows "mountComponent E c p w = (Inr c', w') \<Longrightarrow>
           wf_comp p c' \<and> ref c' = ref c \<and> currentElement c' = currentElement c \<and>
           map currentElement (rendered (renderedChildren c')) = childrenToUse (echildren (currentElement c))"
    and "mountEach E p i cs w = (Inr mounted, w') \<Longrightarrow>
           wf_comps p i mounted \<and> map ref mounted = map ref cs \<and>
           map currentElement mounted = map currentElement cs"
proof (induction c p w and p i cs w arbitrary: c' w' and mounted w' rule: mount_induct[where E=E])
  case (Component this el rid rc p w)
  from Component.prems obtain parent node w1 children w3 mounted w4 where
    gp: "idops_getParent p w = Inr parent"
    and mn: "mountNode E this parent el w = (Inr node, w1)"
    and ic: "instantiateChildren (childrenToUse (echildren el)) (idops_add p node w1) = (children, w3)"
    and me: "mountEach E p 0 children w3 = (Inr mounted, w4)"
    and c': "c' = Component this el (Some p) (Some mounted)"
    by (rule mountComponent_Inr)
  from Component.IH[OF gp mn ic me] instantiateChildren_elements[OF ic] c'
  show ?case by simp
next
  case (Nil p i w)
  then show ?case by simp
next
  case (Cons p i child rest w)
  from Cons.prems obtain child' w1 rest' where
    m: "mountComponent E child (p @ [i]) w = (Inr child', w1)"
    and r: "mountEach E p (Suc i) rest w1 = (Inr rest', w')"
    and e: "mounted = child' # rest'"
    by (rule mountEach_Cons_Inr)
  from Cons.IH(1)[OF m] Cons.IH(2)[OF m r] e show ?case by simp
qed

lemma mount_registry:
  assumes "mountComponent E c p w = (Inr c', w')"
  shows "blessedNodes w' p = Some (nextHandle w)" and "listener w' (nextHandle w) = Some (ref c)"
proof -
  obtain this el rid rc where c: "c = Component this el rid rc" by (cases c)
  from assms[unfolded c] obtain parent node w1 children w3 mounted w4 where
    gp: "idops_getParent p w = Inr parent"
    and mn: "mountNode E this parent el w = (Inr node, w1)"
    and ic: "instantiateChildren (childrenToUse (echildren el)) (idops_add p node w1) = (children, w3)"
    and me: "mountEach E p 0 children w3 = (Inr mounted, w4)"
    and w': "w' = debouncedRender w4"
    by (rule mountComponent_Inr)
  note n = mountNode_Inr[OF mn]
  have w3: "w3 = (idops_add p node w1)\<lparr>nextRef := nextRef (idops_add p node w1) + length (childrenToUse (echildren el))\<rparr>"
    using instantiateChildren_world[OF ic] .
  have "blessedNodes w4 p = blessedNodes w3 p"
    using mountEach_registry_parent[of E p 0 children w3] me by simp
  then show "blessedNodes w' p = Some (nextHandle w)"
    using w' w3 n(2) by (simp add: debouncedRender_def idops_add_def)
  have "nextHandle w < nextHandle w3"
    using w3 n by (simp add: idops_add_def)
  then have "listener w4 (nextHandle w) = listener w3 (nextHandle w)"
    using mount_listener_frame(2)[of "nextHandle w" w3 E p 0 children] me by simp
  then show "listener w' (nextHandle w) = Some (ref c)"
    using w' w3 n c by (simp add: debouncedRender_def idops_add_def)
qed

section \<open>The event dispatcher\<close>

lemma find_component_self: "find_component (ref c) c = Some c"
  by (cases c) simp

text \<open>
  C6. After a mount, an event fired on the widget of the node reaches the dispatcher of
  the mounted instance, which reads the prop named \<^verbatim>\<open>on\<close> followed by the
  case-normalised event name: when the prop is a function the dispatcher calls it with
  the arguments of the event, and when the prop is absent or no function it makes no
  call and fails in no way.
\<close>

theorem dispatcher_after_mount:
  assumes "mountComponent E c rootID w = (Inr c', w')"
  shows "\<exists>node. blessedNodes w' rootID = Some node \<and> listener w' node = Some (ref c') \<and>
           (\<forall>handler. map_of (eoptions (currentElement c')) (''on'' @ startCase E type) = Some (PFun handler) \<longrightarrow>
              fire E c' w' node type args = Some (handler, args)) \<and>
           ((\<forall>handler. map_of (eoptions (currentElement c')) (''on'' @ startCase E type) \<noteq> Some (PFun handler)) \<longrightarrow>
              fire E c' w' node type args = None)"
proof -
  have r: "ref c' = ref c"
    using mount_struct(1)[OF assms] by simp
  have l: "listener w' (nextHandle w) = Some (ref c')"
    using mount_registry(2)[OF assms] r by simp
  have f: "fire E c' w' (nextHandle w) type args = dispatcher E c' type args"
    using l by (simp add: fire_def find_component_self)
  show ?thesis
  proof (intro exI conjI allI impI)
    show "blessedNodes w' rootID = Some (nextHandle w)" by (rule mount_registry(1)[OF assms])
    show "listener w' (nextHandle w) = Some (ref c')" by (rule l)
  next
    fix handler
    assume "map_of (eoptions (currentElement c')) (''on'' @ startCase E type) = Some (PFun handler)"
    then show "fire E c' w' (nextHandle w) type args = Some (handler, args)"
      by (simp add: f dispatcher_def)
  next
    assume "\<forall>handler. map_of (eoptions (currentElement c')) (''on'' @ startCase E type) \<noteq> Some (PFun handler)"
    then show "fire E c' w' (nextHandle w) type args = None"
      by (auto simp: f dispatcher_def split: option.splits propval.splits)
  qed
qed

lemma mount_clickable_box:
  "fst (mountComponent example_env (Component 0 clickable_box None None) [0] empty_world)
     = Inr (Component 0 clickable_box (Some [0]) (Some []))"
  by (simp add: clickable_box_def example_env_def empty_world_def idops_getParent_def prim_defs)


theorem dispatcher_after_mount_witness:
  "\<exists>c' w'. mountComponent example_env (Component 0 clickable_box None None) [0] empty_world = (Inr c', w') \<and>
      blessedNodes w' [0] = Some 1 \<and>
      fire example_env c' w' 1 ''click'' [PNum 3] = Some (1, [PNum 3]) \<and>
      fire example_env c' w' 1 ''key'' [] = None \<and>
      fire example_env c' w' 1 ''blur'' [] = None"
proof -
  obtain w' where m: "mountComponent example_env (Component 0 clickable_box None None) [0] empty_world
      = (Inr (Component 0 clickable_box (Some [0]) (Some [])), w')"
    using mount_clickable_box by (metis prod.collapse)
  have n: "blessedNodes w' [0] = Some 1"
    using mount_registry(1)[OF m] by (simp add: empty_world_def)
  have "fire example_env (Component 0 clickable_box (Some [0]) (Some [])) w' 1 ''click'' [PNum 3] = Some (1, [PNum 3])"
    using dispatcher_after_mount[OF m, of "''click''" "[PNum 3]"] n
    by (simp add: clickable_box_def example_env_def)
  moreover have "fire example_env (Component 0 clickable_box (Some [0]) (Some [])) w' 1 ''key'' [] = None"
    using dispatcher_after_mount[OF m, of "''key''" "[]"] n
    by (simp add: clickable_box_def example_env_def)
  moreover have "fire example_env (Component 0 clickable_box (Some [0]) (Some [])) w' 1 ''blur'' [] = None"
    using dispatcher_after_mount[OF m, of "''blur''" "[]"] n
    by (simp add: clickable_box_def example_env_def)
  ultimately show ?thesis using m n by blast
qed

section \<open>The widget tree after a mount\<close>



lemma getParent_child: "p \<noteq> [] \<Longrightarrow> idops_getParent (p @ [i]) w = idops_get p w"
  by (cases p) (simp_all add: idops_getParent_def)

lemma not_prefix_child: "\<not> prefix (p @ [i]) p"
  by (simp add: prefix_def)



lemma mount_two_children:
  "fst (mountComponent example_env (Component 0 two_children None None) [0] empty_world)
     = Inr (Component 0 two_children (Some [0])
         (Some [Component 1 (Element ''list'' [] NoChildrenKey) (Some [0, 0]) (Some []),
                Component 2 (Element ''box'' [] (ManyChildren [])) (Some [0, 1]) (Some [])]))"
  by (simp add: two_children_def example_env_def empty_world_def idops_getParent_def idops_get_def prim_defs)




section \<open>The order of the calls of a mount\<close>

lemma mount_trace_head:
  assumes "mountComponent E (Component this el rid rc) p w = (Inr c', w')"
  shows "\<exists>parent children w3 mounted w4 evs.
           idops_getParent p w = Inr parent \<and>
           mountEach E p 0 children w3 = (Inr mounted, w4) \<and>
           map currentElement children = childrenToUse (echildren el) \<and>
           blessedNodes w3 p = Some (nextHandle w) \<and>
           nextHandle w \<in> set (wchildren w3 parent) \<and>
           trace w3 = trace w @ [CreateWidget (etype el) (solveClass E (eoptions el)) (nextHandle w),
                                 OnAny (nextHandle w) this, Append parent (nextHandle w),
                                 Add p (nextHandle w)] \<and>
           trace w4 = trace w3 @ evs \<and>
           trace w' = trace w4 @ [DebouncedRender]"
proof -
  from assms obtain parent node w1 children w3 mounted w4 where
    gp: "idops_getParent p w = Inr parent"
    and mn: "mountNode E this parent el w = (Inr node, w1)"
    and ic: "instantiateChildren (childrenToUse (echildren el)) (idops_add p node w1) = (children, w3)"
    and me: "mountEach E p 0 children w3 = (Inr mounted, w4)"
    and w': "w' = debouncedRender w4"
    by (rule mountComponent_Inr)
  note n = mountNode_Inr[OF mn]
  have w3: "w3 = (idops_add p node w1)\<lparr>nextRef := nextRef (idops_add p node w1) + length (childrenToUse (echildren el))\<rparr>"
    using instantiateChildren_world[OF ic] .
  have "prefix (trace w3) (trace w4)"
    using mount_trace_prefix(2)[of w3 E p 0 children] me by simp
  then obtain evs where evs: "trace w4 = trace w3 @ evs"
    by (auto simp: prefix_def)
  have t3: "trace w3 = trace w @ [CreateWidget (etype el) (solveClass E (eoptions el)) (nextHandle w),
        OnAny (nextHandle w) this, Append parent (nextHandle w), Add p (nextHandle w)]"
    using w3 n by (simp add: idops_add_def)
  have b3: "blessedNodes w3 p = Some (nextHandle w)"
    using w3 n by (simp add: idops_add_def)
  have c3: "nextHandle w \<in> set (wchildren w3 parent)"
    using w3 n by (simp add: idops_add_def)
  have t': "trace w' = trace w4 @ [DebouncedRender]"
    using w' by (simp add: debouncedRender_def)
  from gp me instantiateChildren_elements[OF ic] b3 c3 t3 evs t' show ?thesis by blast
qed

lemma mountEach_trace:
  assumes "mountEach E p i cs w = (Inr mounted, w')" and "p \<noteq> []" and "idops_get p w = Inr node"
  shows "\<exists>evs. trace w' = trace w @ evs \<and>
           (\<forall>j<length cs. \<exists>child. Append node child \<in> set evs \<and> Add (p @ [i + j]) child \<in> set evs)"
  using assms
proof (induction cs arbitrary: i w mounted)
  case Nil
  then show ?case by simp
next
  case (Cons c rest)
  from Cons.prems(1) obtain child' w1 rest' where
    m: "mountComponent E c (p @ [i]) w = (Inr child', w1)"
    and r: "mountEach E p (Suc i) rest w1 = (Inr rest', w')"
    by (rule mountEach_Cons_Inr)
  obtain this el rid rc where c: "c = Component this el rid rc" by (cases c)
  have gp: "idops_getParent (p @ [i]) w = Inr node"
    using Cons.prems(2,3) by (simp add: getParent_child)
  from mount_trace_head[OF m[unfolded c]] gp obtain evs1 where
    t1: "trace w1 = trace w @ [CreateWidget (etype el) (solveClass E (eoptions el)) (nextHandle w),
        OnAny (nextHandle w) this, Append node (nextHandle w), Add (p @ [i]) (nextHandle w)] @ evs1 @ [DebouncedRender]"
    by auto
  have "blessedNodes w1 p = blessedNodes w p"
    using mount_registry_frame[where p="p @ [i]" and q=p and E=E and c=c and w=w, OF not_prefix_child] m
    by simp
  then have g1: "idops_get p w1 = Inr node"
    using Cons.prems(3) by (simp add: idops_get_def)
  from Cons.IH[OF r Cons.prems(2) g1] obtain evs2 where
    t2: "trace w' = trace w1 @ evs2"
    and a2: "\<And>j. j < length rest \<Longrightarrow> \<exists>child. Append node child \<in> set evs2 \<and> Add (p @ [Suc i + j]) child \<in> set evs2"
    by blast
  let ?evs = "[CreateWidget (etype el) (solveClass E (eoptions el)) (nextHandle w),
        OnAny (nextHandle w) this, Append node (nextHandle w), Add (p @ [i]) (nextHandle w)] @ evs1 @ [DebouncedRender] @ evs2"
  have "trace w' = trace w @ ?evs" using t1 t2 by simp
  moreover have "\<exists>child. Append node child \<in> set ?evs \<and> Add (p @ [i + j]) child \<in> set ?evs"
    if "j < length (c # rest)" for j
  proof (cases j)
    case 0
    then show ?thesis by auto
  next
    case (Suc k)
    with that a2[of k] show ?thesis by auto
  qed
  ultimately show ?case by blast
qed

text \<open>
  C10. A successful mount first creates the widget, installs the dispatcher, appends
  the widget to its parent and adds the registry entry; only then come the calls of the
  children's mounts, and the redraw request is last. Among the calls of the children's
  mounts, every virtual child has its widget appended to the widget of this node, which
  is what the parent lookup of the child's identifier gave, and added to the registry
  under the child's identifier.
\<close>

theorem registry_entry_before_children:
  assumes "mountComponent E (Component this el rid rc) rootID w = (Inr c', w')" and "rootID \<noteq> []"
  shows "\<exists>parent node evs.
           idops_getParent rootID w = Inr parent \<and> blessedNodes w' rootID = Some node \<and>
           trace w' = trace w @ [CreateWidget (etype el) (solveClass E (eoptions el)) node,
                                 OnAny node this, Append parent node, Add rootID node]
                        @ evs @ [DebouncedRender] \<and>
           (\<forall>i<length (childrenToUse (echildren el)).
              \<exists>child. Append node child \<in> set evs \<and> Add (rootID @ [i]) child \<in> set evs)"
proof -
  from mount_trace_head[OF assms(1)] obtain parent children w3 mounted w4 evs where
    gp: "idops_getParent rootID w = Inr parent"
    and me: "mountEach E rootID 0 children w3 = (Inr mounted, w4)"
    and ch: "map currentElement children = childrenToUse (echildren el)"
    and b3: "blessedNodes w3 rootID = Some (nextHandle w)"
    and t3: "trace w3 = trace w @ [CreateWidget (etype el) (solveClass E (eoptions el)) (nextHandle w),
                                 OnAny (nextHandle w) this, Append parent (nextHandle w),
                                 Add rootID (nextHandle w)]"
    and t4: "trace w4 = trace w3 @ evs"
    and t': "trace w' = trace w4 @ [DebouncedRender]"
    by blast
  have g3: "idops_get rootID w3 = Inr (nextHandle w)"
    using b3 by (simp add: idops_get_def)
  from mountEach_trace[OF me assms(2) g3] t4 have
    "\<forall>j<length children. \<exists>child. Append (nextHandle w) child \<in> set evs \<and> Add (rootID @ [j]) child \<in> set evs"
    by auto
  moreover have "length children = length (childrenToUse (echildren el))"
    using ch by (metis length_map)
  ultimately show ?thesis using gp t3 t4 t' mount_registry(1)[OF assms(1)] by auto
qed

theorem registry_entry_before_children_witness:
  "\<exists>c' w' evs.
      mountComponent example_env (Component 0 two_children None None) [0] empty_world = (Inr c', w') \<and>
      blessedNodes w' [0] = Some 1 \<and>
      trace w' = [CreateWidget ''box'' [] 1, OnAny 1 0, Append 0 1, Add [0] 1] @ evs @ [DebouncedRender] \<and>
      (\<exists>child. Append 1 child \<in> set evs \<and> Add [0, 0] child \<in> set evs) \<and>
      (\<exists>child. Append 1 child \<in> set evs \<and> Add [0, 1] child \<in> set evs)"
proof -
  obtain c' w' where m: "mountComponent example_env (Component 0 two_children None None) [0] empty_world = (Inr c', w')"
    using mount_two_children by (metis prod.collapse)
  have gp: "idops_getParent [0] empty_world = Inr 0"
    by (simp add: idops_getParent_def empty_world_def)
  have n: "blessedNodes w' [0] = Some 1"
    using mount_registry(1)[OF m] by (simp add: empty_world_def)
  from registry_entry_before_children[OF m] gp n obtain evs where
    t: "trace w' = trace empty_world @ [CreateWidget (etype two_children) (solveClass example_env (eoptions two_children)) 1,
          OnAny 1 0, Append 0 1, Add [0] 1] @ evs @ [DebouncedRender]"
    and a: "\<forall>i<length (childrenToUse (echildren two_children)).
              \<exists>child. Append 1 child \<in> set evs \<and> Add ([0] @ [i]) child \<in> set evs"
    by auto
  have t': "trace w' = [CreateWidget ''box'' [] 1, OnAny 1 0, Append 0 1, Add [0] 1] @ evs @ [DebouncedRender]"
    using t by (simp add: empty_world_def two_children_def example_env_def)
  have "\<exists>child. Append 1 child \<in> set evs \<and> Add [0, 0] child \<in> set evs"
    using a[rule_format, of 0] by (simp add: two_children_def)
  moreover have "\<exists>child. Append 1 child \<in> set evs \<and> Add [0, 1] child \<in> set evs"
    using a[rule_format, of 1] by (simp add: two_children_def)
  ultimately show ?thesis using m n t' by blast
qed

section \<open>Facts about unmounting\<close>

lemma unmount_rel:
  assumes refl: "\<And>w. Q w w" and trans: "\<And>a b c. Q a b \<Longrightarrow> Q b c \<Longrightarrow> Q a c"
    and off: "\<And>node w. Q w (offAny node w)"
    and remove: "\<And>parent node w. Q w (remove_node parent node w)"
    and drop: "\<And>ID w. ID \<in> S \<Longrightarrow> Q w (idops_drop ID w)"
  shows "ids c \<subseteq> S \<Longrightarrow> Q w (snd (unmountComponent c w))"
    and "ids_list cs \<subseteq> S \<Longrightarrow> Q w (snd (unmountEach cs w))"
proof (induction c w and cs w rule: unmountComponent_unmountEach.induct)
  case (1 this element rid rc w)
  obtain r1 w1 where u: "unmountEach (rendered rc) w = (r1, w1)"
    by (cases "unmountEach (rendered rc) w")
  have q1: "Q w w1" using u "1.IH" "1.prems" by simp
  show ?case
  proof (cases r1)
    case (Inl e)
    with u q1 show ?thesis by simp
  next
    case (Inr x)
    show ?thesis
    proof (cases rid)
      case None
      with u Inr q1 show ?thesis by simp
    next
      case (Some ID)
      have "ID \<in> S" using "1.prems" Some by simp
      then have "Q w1 (idops_drop ID (remove_node parent node (offAny node w1)))" for parent node
        using off[of w1 node] remove[of "offAny node w1" parent node]
          drop[of ID "remove_node parent node (offAny node w1)"] trans by blast
      then have "Q w (idops_drop ID (remove_node parent node (offAny node w1)))" for parent node
        using q1 trans by blast
      with u Inr Some q1 show ?thesis
        by (simp split: sum.splits)
    qed
  qed
next
  case (2 w)
  show ?case by (simp add: refl)
next
  case (3 child rest w)
  obtain r1 w1 where u: "unmountComponent child w = (r1, w1)"
    by (cases "unmountComponent child w")
  have q1: "Q w w1" using u "3.IH"(1) "3.prems" by simp
  show ?case
  proof (cases r1)
    case (Inl e)
    with u q1 show ?thesis by simp
  next
    case (Inr child')
    have "Q w1 (snd (unmountEach rest w1))"
      using "3.IH"(2)[OF u[symmetric] Inr] "3.prems" by simp
    with u Inr q1 show ?thesis using trans by auto
  qed
qed


lemma unmount_trace:
  "\<exists>evs. trace (snd (unmountComponent c w)) = trace w @ evs \<and> list_all teardown evs"
  "\<exists>evs. trace (snd (unmountEach cs w)) = trace w @ evs \<and> list_all teardown evs"
proof -
  let ?Q = "\<lambda>a b. \<exists>evs. trace b = trace a @ evs \<and> list_all teardown evs"
  have r: "?Q w w" for w by simp
  have t: "?Q a c" if "?Q a b" "?Q b c" for a b c
  proof -
    from that obtain e1 e2 where "trace b = trace a @ e1" "list_all teardown e1"
      "trace c = trace b @ e2" "list_all teardown e2" by blast
    then have "trace c = trace a @ (e1 @ e2) \<and> list_all teardown (e1 @ e2)" by simp
    then show ?thesis by blast
  qed
  show "?Q w (snd (unmountComponent c w))"
    by (rule unmount_rel(1)[where Q="?Q" and S=UNIV, OF r t])
       (simp_all add: offAny_def remove_node_def idops_drop_def)
  show "?Q w (snd (unmountEach cs w))"
    by (rule unmount_rel(2)[where Q="?Q" and S=UNIV, OF r t])
       (simp_all add: offAny_def remove_node_def idops_drop_def)
qed

lemma unmountEach_drops:
  assumes "unmountEach cs w = (Inr u, w')" and "trace w' = trace w @ evs"
  shows "list_all (\<lambda>c. \<exists>ID. rootNodeID c = Some ID \<and> Drop ID \<in> set evs) cs"
  using assms
proof (induction cs arbitrary: w evs)
  case Nil
  show ?case by simp
next
  case (Cons child rest)
  from Cons.prems(1) obtain child' w1 where
    u1: "unmountComponent child w = (Inr child', w1)" and u2: "unmountEach rest w1 = (Inr u, w')"
    by (auto split: sum.splits prod.splits)
  from unmount_trace(2)[of rest w1] u2 obtain e2 where e2: "trace w' = trace w1 @ e2" by auto
  obtain this el rid rc where c: "child = Component this el rid rc" by (cases child)
  from u1[unfolded c] obtain ID w0 parent node where
    rid: "rid = Some ID" and w1: "w1 = idops_drop ID (remove_node parent node (offAny node w0))"
    and u0: "unmountEach (rendered rc) w = (Inr (), w0)"
    by (auto split: sum.splits prod.splits option.splits simp: Let_def)
  from unmount_trace(2)[of "rendered rc" w] u0 obtain e0 where e0: "trace w0 = trace w @ e0" by auto
  have t1: "trace w1 = trace w @ e0 @ [OffAny node, Remove parent node, Drop ID]"
    using w1 e0 by (simp add: offAny_def remove_node_def idops_drop_def)
  have evs: "evs = e0 @ [OffAny node, Remove parent node, Drop ID] @ e2"
    using Cons.prems(2) t1 e2 by simp
  have "list_all (\<lambda>c. \<exists>ID. rootNodeID c = Some ID \<and> Drop ID \<in> set e2) rest"
    using Cons.IH[OF u2 e2] .
  then have "list_all (\<lambda>c. \<exists>ID. rootNodeID c = Some ID \<and> Drop ID \<in> set evs) rest"
    unfolding evs by (induction rest) auto
  moreover have "\<exists>ID. rootNodeID child = Some ID \<and> Drop ID \<in> set evs"
    using c rid evs by simp
  ultimately show ?case by simp
qed

text \<open>
  C5. A successful unmount (the unmount of an instance as its mount left it is one, see
  \<open>unmount_after_mount\<close>) first unmounts all rendered children, each of which drops
  its own registry entry; then it removes the listeners of the node's widget, removes the
  widget from the children of its parent widget and drops the node's registry entry, in
  this order. None of the calls made, by the node or below it, is a redraw request.
\<close>

theorem unmount_children_first_no_redraw:
  assumes "unmountComponent (Component this el rid rc) w = (Inr c', w')"
  shows "\<exists>ID parent node w1 evs.
           rid = Some ID \<and>
           unmountEach (rendered rc) w = (Inr (), w1) \<and>
           trace w1 = trace w @ evs \<and> list_all teardown evs \<and>
           list_all (\<lambda>c. \<exists>CID. rootNodeID c = Some CID \<and> Drop CID \<in> set evs) (rendered rc) \<and>
           idops_getParent ID w1 = Inr parent \<and> idops_get ID w1 = Inr node \<and>
           trace w' = trace w1 @ [OffAny node, Remove parent node, Drop ID] \<and>
           DebouncedRender \<notin> set (evs @ [OffAny node, Remove parent node, Drop ID]) \<and>
           listener w' node = None \<and>
           wchildren w' parent = remove1 node (wchildren w1 parent) \<and>
           blessedNodes w' ID = None \<and>
           c' = Component this el None None"
proof -
  from assms obtain ID w1 parent node where
    rid: "rid = Some ID"
    and u: "unmountEach (rendered rc) w = (Inr (), w1)"
    and gp: "idops_getParent ID w1 = Inr parent"
    and g: "idops_get ID w1 = Inr node"
    and w': "w' = idops_drop ID (remove_node parent node (offAny node w1))"
    and c': "c' = Component this el None None"
    by (auto split: sum.splits prod.splits option.splits simp: Let_def)
  from unmount_trace(2)[of "rendered rc" w] u obtain evs where
    evs: "trace w1 = trace w @ evs" and td: "list_all teardown evs" by auto
  have nr: "DebouncedRender \<notin> set (evs @ [OffAny node, Remove parent node, Drop ID])"
    using td by (auto simp: list_all_iff)
  have dr: "list_all (\<lambda>c. \<exists>CID. rootNodeID c = Some CID \<and> Drop CID \<in> set evs) (rendered rc)"
    using unmountEach_drops[OF u evs] .
  have "trace w' = trace w1 @ [OffAny node, Remove parent node, Drop ID]"
    "listener w' node = None" "wchildren w' parent = remove1 node (wchildren w1 parent)"
    "blessedNodes w' ID = None"
    using w' by (simp_all add: offAny_def remove_node_def idops_drop_def)
  with rid u evs td dr gp g nr c' show ?thesis by blast
qed


lemma unmount_two_children:
  "fst (unmountComponent two_children_mounted
          (snd (mountComponent example_env (Component 0 two_children None None) [0] empty_world)))
     = Inr (Component 0 two_children None None)"
  by (simp add: two_children_mounted_def two_children_def example_env_def empty_world_def
      idops_getParent_def idops_get_def idops_drop_def offAny_def remove_node_def prim_defs)

theorem unmount_children_first_no_redraw_witness:
  "\<exists>w1 c' w' evs.
      mountComponent example_env (Component 0 two_children None None) [0] empty_world
        = (Inr two_children_mounted, w1) \<and>
      unmountComponent two_children_mounted w1 = (Inr c', w') \<and>
      trace w' = trace w1 @ evs @ [Drop [0]] \<and>
      Drop [0, 0] \<in> set evs \<and> Drop [0, 1] \<in> set evs \<and> DebouncedRender \<notin> set evs \<and>
      blessedNodes w' [0] = None \<and> c' = Component 0 two_children None None"
proof -
  obtain w1 where m: "mountComponent example_env (Component 0 two_children None None) [0] empty_world
      = (Inr two_children_mounted, w1)"
    using mount_two_children unfolding two_children_mounted_def by (metis prod.collapse)
  then have w1: "w1 = snd (mountComponent example_env (Component 0 two_children None None) [0] empty_world)"
    by simp
  obtain w' where u: "unmountComponent two_children_mounted w1 = (Inr (Component 0 two_children None None), w')"
    using unmount_two_children unfolding w1 by (metis prod.collapse)
  from unmount_children_first_no_redraw[OF u[unfolded two_children_mounted_def]]
  show ?thesis
  proof (elim exE conjE)
    fix ID parent node w2 evs
    assume rid: "Some [0] = Some ID"
      and t2: "trace w2 = trace w1 @ evs"
      and dr: "list_all (\<lambda>c. \<exists>CID. rootNodeID c = Some CID \<and> Drop CID \<in> set evs)
        (rendered (Some [Component 1 (Element ''list'' [] NoChildrenKey) (Some [0, 0]) (Some []),
              Component 2 (Element ''box'' [] (ManyChildren [])) (Some [0, 1]) (Some [])]))"
      and t0: "trace w' = trace w2 @ [OffAny node, Remove parent node, Drop ID]"
      and nr0: "DebouncedRender \<notin> set (evs @ [OffAny node, Remove parent node, Drop ID])"
      and b0: "blessedNodes w' ID = None"
    have ID: "ID = [0]" using rid by simp
    have "trace w' = trace w1 @ (evs @ [OffAny node, Remove parent node]) @ [Drop [0]]"
      using t2 t0 ID by simp
    moreover have "Drop [0, 0] \<in> set (evs @ [OffAny node, Remove parent node])"
      "Drop [0, 1] \<in> set (evs @ [OffAny node, Remove parent node])"
      using dr by simp_all
    moreover have "DebouncedRender \<notin> set (evs @ [OffAny node, Remove parent node])"
      using nr0 by simp
    moreover have "blessedNodes w' [0] = None"
      using b0 ID by simp
    ultimately show ?thesis using m u by blast
  qed
qed

section \<open>Facts about updating\<close>

text \<open>
  The induction rule of \<open>receiveComponent\<close> and \<open>reconcileEach\<close> with the
  environment fixed.
\<close>

lemma receive_induct [case_names Receive Nil Fresh Slot]:
  assumes R: "\<And>this el rid rc nextElement w.
      (\<And>ID node. rid = Some ID \<Longrightarrow> idops_get ID w = Inr node \<Longrightarrow>
          P2 (rendered rc) (childrenToUse (echildren nextElement))
             (update_node node (solveClass E (eoptions nextElement)) w)) \<Longrightarrow>
      P1 (Component this el rid rc) nextElement w"
    and N: "\<And>prev w. P2 prev [] w"
    and F: "\<And>n nexts w.
      (\<And>child w1. instantiate n w = (child, w1) \<Longrightarrow> P2 [] nexts w1) \<Longrightarrow>
      P2 [] (n # nexts) w"
    and S: "\<And>pc prev n nexts w.
      (shouldUpdateReactComponent (currentElement pc) n \<Longrightarrow> P1 pc n w) \<Longrightarrow>
      (\<And>child w1. shouldUpdateReactComponent (currentElement pc) n \<Longrightarrow>
          receiveComponent E pc n w = (Inr child, w1) \<Longrightarrow> P2 prev nexts w1) \<Longrightarrow>
      (\<And>u w1 child w2. \<not> shouldUpdateReactComponent (currentElement pc) n \<Longrightarrow>
          unmountComponent pc w = (Inr u, w1) \<Longrightarrow> instantiate n w1 = (child, w2) \<Longrightarrow>
          P2 prev nexts w2) \<Longrightarrow>
      P2 (pc # prev) (n # nexts) w"
  shows "P1 c nextElement w" and "P2 prev nexts w"
proof -
  have "E' = E \<longrightarrow> P1 c nextElement w" and "E' = E \<longrightarrow> P2 prev nexts w" for E'
  proof (induction E' c nextElement w and E' prev nexts w rule: receiveComponent_reconcileEach.induct)
    case (1 E' this element rid rc nextElement w)
    show ?case
    proof
      assume e: "E' = E"
      show "P1 (Component this element rid rc) nextElement w"
      proof (rule R)
        fix ID node
        assume "rid = Some ID" and "idops_get ID w = Inr node"
        then show "P2 (rendered rc) (childrenToUse (echildren nextElement))
             (update_node node (solveClass E (eoptions nextElement)) w)"
          using "1" [of ID node "update_node node (solveClass E (eoptions nextElement)) w"] e
          by simp
      qed
    qed
  next
    case (2 E' prev w)
    show ?case by (simp add: N)
  next
    case (3 E' nextElement nexts w)
    show ?case
    proof
      assume e: "E' = E"
      show "P2 [] (nextElement # nexts) w"
      proof (rule F)
        fix child w1
        assume "instantiate nextElement w = (child, w1)"
        then show "P2 [] nexts w1"
          using "3" [of "(child, w1)" child w1] e by simp
      qed
    qed
  next
    case (4 E' prevChild prev nextElement nexts w)
    show ?case
    proof
      assume e: "E' = E"
      show "P2 (prevChild # prev) (nextElement # nexts) w"
      proof (rule S)
        assume "shouldUpdateReactComponent (currentElement prevChild) nextElement"
        then show "P1 prevChild nextElement w" using "4.IH"(1) e by simp
      next
        fix child w1
        assume "shouldUpdateReactComponent (currentElement prevChild) nextElement"
          and "receiveComponent E prevChild nextElement w = (Inr child, w1)"
        then show "P2 prev nexts w1"
          using "4.IH"(2) [of "Inr child" w1 child] e by simp
      next
        fix u w1 child w2
        assume "\<not> shouldUpdateReactComponent (currentElement prevChild) nextElement"
          and "unmountComponent prevChild w = (Inr u, w1)"
          and "instantiate nextElement w1 = (child, w2)"
        then show "P2 prev nexts w2"
          using "4.IH"(3) [of "Inr u" w1 u "(child, w2)" child w2] e by simp
      qed
    qed
  qed
  then show "P1 c nextElement w" and "P2 prev nexts w" by simp_all
qed


lemma unmountEach_rel:
  assumes refl: "\<And>w. Q w w" and trans: "\<And>a b c. Q a b \<Longrightarrow> Q b c \<Longrightarrow> Q a c"
    and unm: "\<And>c q w. strict_prefix p0 q \<Longrightarrow> wf_comp q c \<Longrightarrow> Q w (snd (unmountComponent c w))"
  shows "wf_comps p i cs \<Longrightarrow> prefix p0 p \<Longrightarrow> Q w (snd (unmountEach cs w))"
proof (induction cs arbitrary: i w)
  case Nil
  show ?case by (simp add: refl)
next
  case (Cons child rest)
  obtain r1 w1 where u: "unmountComponent child w = (r1, w1)"
    by (cases "unmountComponent child w")
  have "strict_prefix p0 (p @ [i])" using Cons.prems(2) by (auto simp: strict_prefix_def prefix_def)
  then have q1: "Q w w1" using u unm[of "p @ [i]" child w] Cons.prems(1) by simp
  show ?case
  proof (cases r1)
    case (Inl e)
    with u q1 show ?thesis by simp
  next
    case (Inr child')
    have "Q w1 (snd (unmountEach rest w1))"
      using Cons.IH[where i="Suc i" and w=w1] Cons.prems by simp
    with u Inr q1 show ?thesis using trans by auto
  qed
qed

lemma mountFresh_rel:
  assumes refl: "\<And>w. Q w w" and trans: "\<And>a b c. Q a b \<Longrightarrow> Q b c \<Longrightarrow> Q a c"
    and mnt: "\<And>c q w. strict_prefix p0 q \<Longrightarrow> Q w (snd (mountComponent E c q w))"
  shows "prefix p0 p \<Longrightarrow> Q w (snd (mountFresh E p i slots w))"
proof (induction slots arbitrary: i w)
  case Nil
  show ?case by (simp add: refl)
next
  case (Cons s rest)
  show ?case
  proof (cases s)
    case (Kept child)
    obtain r1 w1 where m: "mountFresh E p (Suc i) rest w = (r1, w1)"
      by (cases "mountFresh E p (Suc i) rest w")
    have "Q w w1" using m Cons.IH[where i="Suc i" and w=w] Cons.prems by simp
    with m Kept show ?thesis by (cases r1) simp_all
  next
    case (Fresh child)
    obtain r1 w1 where m: "mountComponent E child (p @ [i]) w = (r1, w1)"
      by (cases "mountComponent E child (p @ [i]) w")
    have "strict_prefix p0 (p @ [i])" using Cons.prems by (auto simp: strict_prefix_def prefix_def)
    then have q1: "Q w w1" using m mnt[of "p @ [i]" w child] by simp
    show ?thesis
    proof (cases r1)
      case (Inl e)
      with m Fresh q1 show ?thesis by simp
    next
      case (Inr child')
      obtain r2 w2 where m2: "mountFresh E p (Suc i) rest w1 = (r2, w2)"
        by (cases "mountFresh E p (Suc i) rest w1")
      have "Q w1 w2" using m2 Cons.IH[where i="Suc i" and w=w1] Cons.prems by simp
      then have "Q w w2" using q1 trans by blast
      with m Fresh Inr m2 show ?thesis by (cases r2) simp_all
    qed
  qed
qed

lemma receive_rel:
  assumes refl: "\<And>w. Q w w" and trans: "\<And>a b c. Q a b \<Longrightarrow> Q b c \<Longrightarrow> Q a c"
    and upd: "\<And>node opts w. Q w (update_node node opts w)"
    and inst: "\<And>el w. Q w (snd (instantiate el w))"
    and unm: "\<And>c q w. strict_prefix p0 q \<Longrightarrow> wf_comp q c \<Longrightarrow> Q w (snd (unmountComponent c w))"
    and mnt: "\<And>c q w. strict_prefix p0 q \<Longrightarrow> Q w (snd (mountComponent E c q w))"
    and render: "\<And>w. Q w (debouncedRender w)"
  shows "wf_comp p c \<Longrightarrow> prefix p0 p \<Longrightarrow> Q w (snd (receiveComponent E c nextElement w))"
    and "wf_comps p i prev \<Longrightarrow> prefix p0 p \<Longrightarrow> Q w (snd (reconcileEach E prev nexts w))"
proof (induction c nextElement w and prev nexts w arbitrary: p and p i rule: receive_induct[where E=E])
  case (Receive this el rid rc nextElement w)
  have rid: "rid = Some p" and wfs: "wf_comps p 0 (rendered rc)"
    using Receive.prems(1) by simp_all
  show ?case
  proof (cases "idops_get p w")
    case (Inl e)
    with rid show ?thesis by (simp add: refl)
  next
    case (Inr node)
    let ?w1 = "update_node node (solveClass E (eoptions nextElement)) w"
    obtain r2 w2 where rc: "reconcileEach E (rendered rc) (childrenToUse (echildren nextElement)) ?w1 = (r2, w2)"
      by (cases "reconcileEach E (rendered rc) (childrenToUse (echildren nextElement)) ?w1")
    have "Q ?w1 w2"
      using rc Receive.IH[OF rid Inr wfs Receive.prems(2)] by simp
    then have q2: "Q w w2" using upd[of w node "solveClass E (eoptions nextElement)"] trans by blast
    show ?thesis
    proof (cases r2)
      case (Inl e)
      with rid Inr rc q2 show ?thesis by simp
    next
      case (Inr slots)
      obtain r3 w3 where mf: "mountFresh E p 0 slots w2 = (r3, w3)"
        by (cases "mountFresh E p 0 slots w2")
      have "Q w2 w3"
        using mf mountFresh_rel[where Q=Q and E=E and ?p0.0=p0 and p=p and i=0 and slots=slots and w=w2, OF refl trans mnt Receive.prems(2)]
        by simp
      then have q3: "Q w w3" using q2 trans by blast
      then have "Q w (debouncedRender w3)" using render trans by blast
      with rid \<open>idops_get p w = Inr node\<close> rc Inr mf q3 show ?thesis
        by (cases r3) simp_all
    qed
  qed
next
  case (Nil prev w)
  obtain r1 w1 where u: "unmountEach prev w = (r1, w1)" by (cases "unmountEach prev w")
  have "Q w w1"
    using u unmountEach_rel[where Q=Q and ?p0.0=p0 and p=p and i=i and cs=prev and w=w, OF refl trans unm Nil.prems]
    by simp
  with u show ?case by (cases r1) simp_all
next
  case (Fresh n nexts w)
  obtain child w1 where i: "instantiate n w = (child, w1)" by (cases "instantiate n w")
  have q1: "Q w w1" using i inst[of w n] by simp
  obtain r2 w2 where rc: "reconcileEach E [] nexts w1 = (r2, w2)"
    by (cases "reconcileEach E [] nexts w1")
  have "Q w1 w2" using rc Fresh.IH[OF i, where p=p and i="Suc i"] Fresh.prems by simp
  then have "Q w w2" using q1 trans by blast
  with i rc show ?case by (cases r2) simp_all
next
  case (Slot pc prev n nexts w)
  have wf1: "wf_comp (p @ [i]) pc" and wfr: "wf_comps p (Suc i) prev"
    using Slot.prems(1) by simp_all
  have sp: "strict_prefix p0 (p @ [i])" using Slot.prems(2) by (auto simp: strict_prefix_def prefix_def)
  have pp: "prefix p0 (p @ [i])" using Slot.prems(2) by simp
  show ?case
  proof (cases "shouldUpdateReactComponent (currentElement pc) n")
    case True
    obtain r1 w1 where r: "receiveComponent E pc n w = (r1, w1)"
      by (cases "receiveComponent E pc n w")
    have q1: "Q w w1" using r Slot.IH(1)[OF True wf1 pp] by simp
    show ?thesis
    proof (cases r1)
      case (Inl e)
      with True r q1 show ?thesis by simp
    next
      case (Inr child)
      obtain r2 w2 where rc: "reconcileEach E prev nexts w1 = (r2, w2)"
        by (cases "reconcileEach E prev nexts w1")
      have "Q w1 w2" using rc Slot.IH(2)[OF True r[unfolded Inr] wfr Slot.prems(2)] by simp
      then have "Q w w2" using q1 trans by blast
      with True r Inr rc show ?thesis by (cases r2) simp_all
    qed
  next
    case False
    obtain r1 w1 where u: "unmountComponent pc w = (r1, w1)"
      by (cases "unmountComponent pc w")
    have q1: "Q w w1" using u unm[OF sp wf1, of w] by simp
    show ?thesis
    proof (cases r1)
      case (Inl e)
      with False u q1 show ?thesis by simp
    next
      case (Inr u')
      obtain child w2 where i: "instantiate n w1 = (child, w2)" by (cases "instantiate n w1")
      have q2: "Q w1 w2" using i inst[of w1 n] by simp
      obtain r3 w3 where rc: "reconcileEach E prev nexts w2 = (r3, w3)"
        by (cases "reconcileEach E prev nexts w2")
      have "Q w2 w3" using rc Slot.IH(3)[OF False u[unfolded Inr] i wfr Slot.prems(2)] by simp
      then have "Q w w3" using q1 q2 trans by blast
      with False u Inr i rc show ?thesis by (cases r3) simp_all
    qed
  qed
qed


lemma wf_ids:
  "wf_comp p c \<Longrightarrow> ids c \<subseteq> {q. prefix p q}"
  "wf_comps p i cs \<Longrightarrow> ids_list cs \<subseteq> {q. strict_prefix p q}"
proof (induction p c and p i cs rule: wf_comp_wf_comps.induct)
  case (1 p this el rid rc)
  then show ?case by (auto simp: strict_prefix_def)
next
  case (2 p i)
  show ?case by simp
next
  case (3 p i c cs)
  then have "ids c \<subseteq> {q. prefix (p @ [i]) q}" by simp
  moreover have "prefix (p @ [i]) q \<Longrightarrow> strict_prefix p q" for q
    by (auto simp: strict_prefix_def prefix_def)
  ultimately show ?case using 3 by auto
qed

lemma mountFresh_wf:
  "slots_wf p i slots \<Longrightarrow> mountFresh E p i slots w = (Inr cs, w') \<Longrightarrow> wf_comps p i cs"
proof (induction slots arbitrary: i w cs)
  case Nil
  then show ?case by simp
next
  case (Cons s rest)
  show ?case
  proof (cases s)
    case (Kept child)
    with Cons.prems obtain rest' where
      "mountFresh E p (Suc i) rest w = (Inr rest', w')" "cs = child # rest'"
      by (auto split: sum.splits prod.splits)
    with Cons.IH[of "Suc i" w rest'] Cons.prems(1) Kept show ?thesis by simp
  next
    case (Fresh child)
    with Cons.prems obtain child' w1 rest' where
      m: "mountComponent E child (p @ [i]) w = (Inr child', w1)"
      and r: "mountFresh E p (Suc i) rest w1 = (Inr rest', w')" and cs: "cs = child' # rest'"
      by (auto split: sum.splits prod.splits)
    from mount_struct(1)[OF m] Cons.IH[of "Suc i" w1 rest'] r Cons.prems(1) Fresh cs
    show ?thesis by simp
  qed
qed

lemma receiveComponent_Inr:
  assumes "receiveComponent E (Component this el rid rc) nextElement w = (Inr c', w')"
  obtains ID node slots w2 children w3 where
    "rid = Some ID" "idops_get ID w = Inr node"
    "reconcileEach E (rendered rc) (childrenToUse (echildren nextElement))
       (update_node node (solveClass E (eoptions nextElement)) w) = (Inr slots, w2)"
    "mountFresh E ID 0 slots w2 = (Inr children, w3)"
    "c' = Component this el rid (Some children)"
    "w' = debouncedRender w3"
  using assms by (auto split: option.splits sum.splits prod.splits simp: Let_def)

lemma receive_struct:
  shows "wf_comp p c \<Longrightarrow> receiveComponent E c nextElement w = (Inr c', w') \<Longrightarrow>
           wf_comp p c' \<and> ref c' = ref c \<and> currentElement c' = currentElement c"
    and "wf_comps p i prev \<Longrightarrow> reconcileEach E prev nexts w = (Inr slots, w') \<Longrightarrow>
           slots_wf p i slots"
proof (induction c nextElement w and prev nexts w arbitrary: p c' w' and p i slots w'
    rule: receive_induct[where E=E])
  case (Receive this el rid rc nextElement w)
  from Receive.prems(2) obtain ID node slots w2 children w3 where
    rid: "rid = Some ID" and g: "idops_get ID w = Inr node"
    and rc: "reconcileEach E (rendered rc) (childrenToUse (echildren nextElement))
       (update_node node (solveClass E (eoptions nextElement)) w) = (Inr slots, w2)"
    and mf: "mountFresh E ID 0 slots w2 = (Inr children, w3)"
    and c': "c' = Component this el rid (Some children)"
    by (rule receiveComponent_Inr)
  have p: "ID = p" and wfs: "wf_comps p 0 (rendered rc)"
    using Receive.prems(1) rid by simp_all
  have "slots_wf p 0 slots"
    using Receive.IH[OF rid g wfs rc] .
  then have "wf_comps p 0 children"
    using mountFresh_wf mf p by blast
  with c' rid p show ?case by simp
next
  case (Nil prev w)
  then show ?case by (auto split: sum.splits prod.splits)
next
  case (Fresh n nexts w)
  from Fresh.prems(2) obtain child w1 slots' where
    i: "instantiate n w = (child, w1)" and rc: "reconcileEach E [] nexts w1 = (Inr slots', w')"
    and s: "slots = Fresh child # slots'"
    by (auto split: sum.splits prod.splits)
  from Fresh.IH[OF i _ rc, of p "Suc i"] s show ?case by simp
next
  case (Slot pc prev n nexts w)
  have wf1: "wf_comp (p @ [i]) pc" and wfr: "wf_comps p (Suc i) prev"
    using Slot.prems(1) by simp_all
  show ?case
  proof (cases "shouldUpdateReactComponent (currentElement pc) n")
    case True
    with Slot.prems(2) obtain child w1 slots' where
      r: "receiveComponent E pc n w = (Inr child, w1)"
      and rc: "reconcileEach E prev nexts w1 = (Inr slots', w')"
      and s: "slots = Kept child # slots'"
      by (auto split: sum.splits prod.splits)
    from Slot.IH(1)[OF True wf1 r] Slot.IH(2)[OF True r wfr rc] s show ?thesis by simp
  next
    case False
    with Slot.prems(2) obtain u w1 child w2 slots' where
      um: "unmountComponent pc w = (Inr u, w1)" and i: "instantiate n w1 = (child, w2)"
      and rc: "reconcileEach E prev nexts w2 = (Inr slots', w')"
      and s: "slots = Fresh child # slots'"
      by (auto split: sum.splits prod.splits)
    from Slot.IH(3)[OF False um i wfr rc] s show ?thesis by simp
  qed
qed


lemma trace_rel_trans:
  assumes "\<exists>evs. trace b = trace a @ evs \<and> list_all ok evs"
    and "\<exists>evs. trace c = trace b @ evs \<and> list_all ok evs"
  shows "\<exists>evs. trace c = trace a @ evs \<and> list_all ok evs"
proof -
  from assms obtain e1 e2 where "trace b = trace a @ e1" "list_all ok e1"
    "trace c = trace b @ e2" "list_all ok e2" by blast
  then have "trace c = trace a @ (e1 @ e2) \<and> list_all ok (e1 @ e2)" by simp
  then show ?thesis by blast
qed

lemma strict_prefix_neq: "strict_prefix p q \<Longrightarrow> prefix q x \<Longrightarrow> x \<noteq> p"
  by (auto simp: strict_prefix_def)

lemma unmount_registry_frame:
  assumes "wf_comp q c" and "strict_prefix p q"
  shows "blessedNodes (snd (unmountComponent c w)) p = blessedNodes w p"
proof (rule unmount_rel(1)[where Q="\<lambda>a b. blessedNodes b p = blessedNodes a p" and S="{x. prefix q x}"])
  show "ids c \<subseteq> {x. prefix q x}" by (rule wf_ids(1)[OF assms(1)])
next
  fix ID w
  assume "ID \<in> {x. prefix q x}"
  then have "ID \<noteq> p" using strict_prefix_neq[OF assms(2)] by simp
  then show "blessedNodes (idops_drop ID w) p = blessedNodes w p"
    by (simp add: idops_drop_def)
qed (simp_all add: offAny_def remove_node_def)

lemma receive_registry_frame:
  assumes "wf_comp p c"
  shows "blessedNodes (snd (receiveComponent E c nextElement w)) p = blessedNodes w p"
proof (rule receive_rel(1)[where Q="\<lambda>a b. blessedNodes b p = blessedNodes a p" and ?p0.0=p and p=p, OF _ _ _ _ _ _ _ assms])
  fix c q w
  assume "strict_prefix p q" "wf_comp q c"
  then show "blessedNodes (snd (unmountComponent c w)) p = blessedNodes w p"
    by (simp add: unmount_registry_frame)
next
  fix c q w
  assume "strict_prefix p q"
  then have "\<not> prefix q p" by (auto simp: strict_prefix_def)
  then show "blessedNodes (snd (mountComponent E c q w)) p = blessedNodes w p"
    by (rule mount_registry_frame)
qed (simp_all add: update_node_def instantiate_def debouncedRender_def)

lemma unmount_untouched:
  assumes "wf_comp q c" and "strict_prefix p q"
  shows "\<exists>evs. trace (snd (unmountComponent c w)) = trace w @ evs \<and> list_all (\<lambda>e. \<not> touches p e) evs"
proof (rule unmount_rel(1)[where Q="\<lambda>a b. \<exists>evs. trace b = trace a @ evs \<and> list_all (\<lambda>e. \<not> touches p e) evs"
      and S="{x. prefix q x}"])
  show "ids c \<subseteq> {x. prefix q x}" by (rule wf_ids(1)[OF assms(1)])
next
  fix ID w
  assume "ID \<in> {x. prefix q x}"
  then have "ID \<noteq> p" using strict_prefix_neq[OF assms(2)] by simp
  then show "\<exists>evs. trace (idops_drop ID w) = trace w @ evs \<and> list_all (\<lambda>e. \<not> touches p e) evs"
    by (simp add: idops_drop_def)
qed (simp_all add: offAny_def remove_node_def trace_rel_trans)

lemma mount_untouched:
  assumes "strict_prefix p q"
  shows "\<exists>evs. trace (snd (mountComponent E c q w)) = trace w @ evs \<and> list_all (\<lambda>e. \<not> touches p e) evs"
proof (rule mount_rel(1)[where Q="\<lambda>a b. \<exists>evs. trace b = trace a @ evs \<and> list_all (\<lambda>e. \<not> touches p e) evs"
      and ?p0.0=q])
  fix x node w
  assume "prefix q x"
  then have "x \<noteq> p" using strict_prefix_neq[OF assms] by simp
  then show "\<exists>evs. trace (idops_add x node w) = trace w @ evs \<and> list_all (\<lambda>e. \<not> touches p e) evs"
    by (simp add: idops_add_def)
qed (simp_all add: prim_defs trace_rel_trans)

lemma receive_untouched:
  assumes "wf_comp p c"
  shows "\<exists>evs. trace (snd (receiveComponent E c nextElement w)) = trace w @ evs \<and>
           list_all (\<lambda>e. \<not> touches p e) evs"
  by (rule receive_rel(1)[where Q="\<lambda>a b. \<exists>evs. trace b = trace a @ evs \<and> list_all (\<lambda>e. \<not> touches p e) evs"
        and ?p0.0=p and p=p, OF _ _ _ _ _ _ _ assms])
     (simp_all add: update_node_def instantiate_def debouncedRender_def trace_rel_trans
        unmount_untouched mount_untouched)


lemma unmount_trace_prefix: "prefix (trace w) (trace (snd (unmountComponent c w)))"
  using unmount_trace(1)[of c w] by (auto simp: prefix_def)

lemma reconcile_trace_prefix:
  assumes "wf_comps p i prev"
  shows "prefix (trace w) (trace (snd (reconcileEach E prev nexts w)))"
  by (rule receive_rel(2)[where Q="\<lambda>a b. prefix (trace a) (trace b)" and ?p0.0=p and p=p,
        OF _ _ _ _ _ _ _ assms])
     (auto simp: update_node_def instantiate_def debouncedRender_def unmount_trace_prefix
        mount_trace_prefix)

lemma mountFresh_trace_prefix:
  "prefix (trace w) (trace (snd (mountFresh E p i slots w)))"
  by (rule mountFresh_rel[where Q="\<lambda>a b. prefix (trace a) (trace b)" and ?p0.0=p])
     (auto simp: mount_trace_prefix)

lemma receive_update_event:
  assumes "wf_comp p c" and "receiveComponent E c nextElement w = (Inr c', w')"
  shows "\<exists>node evs. blessedNodes w p = Some node \<and> trace w' = trace w @ evs \<and>
           Update node (solveClass E (eoptions nextElement)) \<in> set evs"
proof -
  obtain this el rid rc where c: "c = Component this el rid rc" by (cases c)
  from assms(2)[unfolded c] obtain ID node slots w2 children w3 where
    rid: "rid = Some ID" and g: "idops_get ID w = Inr node"
    and rc: "reconcileEach E (rendered rc) (childrenToUse (echildren nextElement))
       (update_node node (solveClass E (eoptions nextElement)) w) = (Inr slots, w2)"
    and mf: "mountFresh E ID 0 slots w2 = (Inr children, w3)"
    and w': "w' = debouncedRender w3"
    by (rule receiveComponent_Inr)
  have p: "ID = p" and wfs: "wf_comps p 0 (rendered rc)"
    using assms(1) c rid by simp_all
  have b: "blessedNodes w p = Some node"
    using g p by (simp add: idops_get_def split: option.splits)
  let ?w1 = "update_node node (solveClass E (eoptions nextElement)) w"
  have "prefix (trace ?w1) (trace w2)"
    using reconcile_trace_prefix[OF wfs, of ?w1 E "childrenToUse (echildren nextElement)"] rc by simp
  moreover have "prefix (trace w2) (trace w3)"
    using mountFresh_trace_prefix[of w2 E ID 0 slots] mf by simp
  ultimately obtain e2 e3 where "trace w2 = trace ?w1 @ e2" "trace w3 = trace w2 @ e3"
    by (auto simp: prefix_def)
  then have "trace w' = trace w @ ([Update node (solveClass E (eoptions nextElement))] @ e2 @ e3 @ [DebouncedRender])"
    using w' by (simp add: update_node_def debouncedRender_def)
  with b show ?thesis by (metis append_Cons list.set_intros(1))
qed

lemma no_create_trans:
  assumes "h < nextHandle a \<longrightarrow> h < nextHandle b \<and> (\<exists>evs. trace b = trace a @ evs \<and> list_all (\<lambda>e. \<not> creates h e) evs)"
    and "h < nextHandle b \<longrightarrow> h < nextHandle c \<and> (\<exists>evs. trace c = trace b @ evs \<and> list_all (\<lambda>e. \<not> creates h e) evs)"
  shows "h < nextHandle a \<longrightarrow> h < nextHandle c \<and> (\<exists>evs. trace c = trace a @ evs \<and> list_all (\<lambda>e. \<not> creates h e) evs)"
  using assms trace_rel_trans[of b a "\<lambda>e. \<not> creates h e" c] by blast

lemma mount_no_create:
  "h < nextHandle w \<longrightarrow> h < nextHandle (snd (mountComponent E c q w)) \<and>
     (\<exists>evs. trace (snd (mountComponent E c q w)) = trace w @ evs \<and> list_all (\<lambda>e. \<not> creates h e) evs)"
proof (rule mount_rel(1)[where Q="\<lambda>a b. h < nextHandle a \<longrightarrow> h < nextHandle b \<and>
      (\<exists>evs. trace b = trace a @ evs \<and> list_all (\<lambda>e. \<not> creates h e) evs)" and ?p0.0="[]"])
  fix a b c :: world
  assume "h < nextHandle a \<longrightarrow> h < nextHandle b \<and> (\<exists>evs. trace b = trace a @ evs \<and> list_all (\<lambda>e. \<not> creates h e) evs)"
    and "h < nextHandle b \<longrightarrow> h < nextHandle c \<and> (\<exists>evs. trace c = trace b @ evs \<and> list_all (\<lambda>e. \<not> creates h e) evs)"
  then show "h < nextHandle a \<longrightarrow> h < nextHandle c \<and> (\<exists>evs. trace c = trace a @ evs \<and> list_all (\<lambda>e. \<not> creates h e) evs)"
    by (rule no_create_trans)
qed (auto simp: prim_defs)

lemma unmount_no_create:
  "h < nextHandle w \<longrightarrow> h < nextHandle (snd (unmountComponent c w)) \<and>
     (\<exists>evs. trace (snd (unmountComponent c w)) = trace w @ evs \<and> list_all (\<lambda>e. \<not> creates h e) evs)"
proof (rule unmount_rel(1)[where Q="\<lambda>a b. h < nextHandle a \<longrightarrow> h < nextHandle b \<and>
      (\<exists>evs. trace b = trace a @ evs \<and> list_all (\<lambda>e. \<not> creates h e) evs)" and S=UNIV])
  fix a b c :: world
  assume "h < nextHandle a \<longrightarrow> h < nextHandle b \<and> (\<exists>evs. trace b = trace a @ evs \<and> list_all (\<lambda>e. \<not> creates h e) evs)"
    and "h < nextHandle b \<longrightarrow> h < nextHandle c \<and> (\<exists>evs. trace c = trace b @ evs \<and> list_all (\<lambda>e. \<not> creates h e) evs)"
  then show "h < nextHandle a \<longrightarrow> h < nextHandle c \<and> (\<exists>evs. trace c = trace a @ evs \<and> list_all (\<lambda>e. \<not> creates h e) evs)"
    by (rule no_create_trans)
qed (auto simp: offAny_def remove_node_def idops_drop_def)

lemma receive_no_create:
  assumes "wf_comp p c"
  shows "h < nextHandle w \<longrightarrow> h < nextHandle (snd (receiveComponent E c nextElement w)) \<and>
     (\<exists>evs. trace (snd (receiveComponent E c nextElement w)) = trace w @ evs \<and>
            list_all (\<lambda>e. \<not> creates h e) evs)"
proof (rule receive_rel(1)[where Q="\<lambda>a b. h < nextHandle a \<longrightarrow> h < nextHandle b \<and>
      (\<exists>evs. trace b = trace a @ evs \<and> list_all (\<lambda>e. \<not> creates h e) evs)" and ?p0.0=p and p=p,
      OF _ _ _ _ _ _ _ assms])
  fix a b c :: world
  assume "h < nextHandle a \<longrightarrow> h < nextHandle b \<and> (\<exists>evs. trace b = trace a @ evs \<and> list_all (\<lambda>e. \<not> creates h e) evs)"
    and "h < nextHandle b \<longrightarrow> h < nextHandle c \<and> (\<exists>evs. trace c = trace b @ evs \<and> list_all (\<lambda>e. \<not> creates h e) evs)"
  then show "h < nextHandle a \<longrightarrow> h < nextHandle c \<and> (\<exists>evs. trace c = trace a @ evs \<and> list_all (\<lambda>e. \<not> creates h e) evs)"
    by (rule no_create_trans)
next
  fix c q w
  show "h < nextHandle w \<longrightarrow> h < nextHandle (snd (unmountComponent c w)) \<and>
     (\<exists>evs. trace (snd (unmountComponent c w)) = trace w @ evs \<and> list_all (\<lambda>e. \<not> creates h e) evs)"
    by (rule unmount_no_create)
next
  fix c q w
  show "h < nextHandle w \<longrightarrow> h < nextHandle (snd (mountComponent E c q w)) \<and>
     (\<exists>evs. trace (snd (mountComponent E c q w)) = trace w @ evs \<and> list_all (\<lambda>e. \<not> creates h e) evs)"
    by (rule mount_no_create)
qed (auto simp: update_node_def instantiate_def debouncedRender_def)

lemma mount_nextHandle_less:
  assumes "mountComponent E c p w = (Inr c', w')"
  shows "nextHandle w < nextHandle w'"
proof -
  obtain this el rid rc where c: "c = Component this el rid rc" by (cases c)
  from assms[unfolded c] obtain parent node w1 children w3 mounted w4 where
    mn: "mountNode E this parent el w = (Inr node, w1)"
    and ic: "instantiateChildren (childrenToUse (echildren el)) (idops_add p node w1) = (children, w3)"
    and me: "mountEach E p 0 children w3 = (Inr mounted, w4)"
    and w': "w' = debouncedRender w4"
    by (rule mountComponent_Inr)
  have "nextHandle w3 = Suc (nextHandle w)"
    using instantiateChildren_world[OF ic] mountNode_Inr[OF mn] by (simp add: idops_add_def)
  moreover have "nextHandle w3 \<le> nextHandle w4"
    using mount_nextHandle(2)[of w3 E p 0 children] me by simp
  ultimately show ?thesis using w' by (simp add: debouncedRender_def)
qed

lemma receiveAll_identity:
  assumes "wf_comp p c" and "receiveAll E c nexts w = (Inr c', w')" and "blessedNodes w p = Some node"
    and "node < nextHandle w"
  shows "wf_comp p c' \<and> ref c' = ref c \<and> currentElement c' = currentElement c \<and>
         blessedNodes w' p = Some node \<and> node < nextHandle w' \<and>
         (\<exists>evs. trace w' = trace w @ evs \<and> list_all (\<lambda>e. \<not> touches p e) evs \<and>
                list_all (\<lambda>e. \<not> creates node e) evs \<and>
                list_all (\<lambda>n. Update node (solveClass E (eoptions n)) \<in> set evs) nexts)"
  using assms
proof (induction nexts arbitrary: c w)
  case Nil
  then show ?case by simp
next
  case (Cons n rest)
  from Cons.prems(2) obtain c1 w1 where
    r: "receiveComponent E c n w = (Inr c1, w1)" and ra: "receiveAll E c1 rest w1 = (Inr c', w')"
    by (auto split: sum.splits prod.splits)
  have s1: "wf_comp p c1" "ref c1 = ref c" "currentElement c1 = currentElement c"
    using receive_struct(1)[OF Cons.prems(1) r] by simp_all
  have b1: "blessedNodes w1 p = Some node"
    using receive_registry_frame[OF Cons.prems(1), of E n w] r Cons.prems(3) by simp
  from receive_untouched[OF Cons.prems(1), of E n w] r obtain e1 where
    e1: "trace w1 = trace w @ e1" "list_all (\<lambda>e. \<not> touches p e) e1" by auto
  from receive_no_create[OF Cons.prems(1), of node w E n] r Cons.prems(4) e1(1) have
    n1: "node < nextHandle w1" and k1: "list_all (\<lambda>e. \<not> creates node e) e1" by auto
  from receive_update_event[OF Cons.prems(1) r] Cons.prems(3) e1(1) have
    u1: "Update node (solveClass E (eoptions n)) \<in> set e1" by auto
  from Cons.IH[OF s1(1) ra b1 n1] obtain e2 where
    f: "wf_comp p c'" "ref c' = ref c1" "currentElement c' = currentElement c1"
      "blessedNodes w' p = Some node" "node < nextHandle w'"
    and e2: "trace w' = trace w1 @ e2" "list_all (\<lambda>e. \<not> touches p e) e2"
      "list_all (\<lambda>e. \<not> creates node e) e2"
      "list_all (\<lambda>n. Update node (solveClass E (eoptions n)) \<in> set e2) rest"
    by blast
  have "list_all (\<lambda>n. Update node (solveClass E (eoptions n)) \<in> set (e1 @ e2)) rest"
    using e2(4) by (induction rest) auto
  then have "trace w' = trace w @ (e1 @ e2) \<and> list_all (\<lambda>e. \<not> touches p e) (e1 @ e2) \<and>
      list_all (\<lambda>e. \<not> creates node e) (e1 @ e2) \<and>
      list_all (\<lambda>n. Update node (solveClass E (eoptions n)) \<in> set (e1 @ e2)) (n # rest)"
    using e1 e2 k1 u1 by simp
  with f s1 show ?case by metis
qed

subsection \<open>The widgets an update creates\<close>

lemma list_ex_registers:
  "list_ex (registers p h) evs \<longleftrightarrow> (\<exists>ID. strict_prefix p ID \<and> Add ID h \<in> set evs)"
proof -
  have "registers p h e \<longleftrightarrow> (\<exists>ID. strict_prefix p ID \<and> e = Add ID h)" for e
    by (cases e) auto
  then show ?thesis by (auto simp: list_ex_iff)
qed

lemma list_all_mounted_below:
  "list_all (mounted_below p evs) evs \<longleftrightarrow>
     (\<forall>t opts h. CreateWidget t opts h \<in> set evs \<longrightarrow>
        (\<exists>ID. strict_prefix p ID \<and> Add ID h \<in> set evs))"
proof -
  have "mounted_below p evs e \<longleftrightarrow>
      (\<forall>t opts h. e = CreateWidget t opts h \<longrightarrow> (\<exists>ID. strict_prefix p ID \<and> Add ID h \<in> set evs))" for e
    by (cases e) (simp_all add: list_ex_registers)
  then show ?thesis unfolding list_all_iff by blast
qed

lemma creates_only_below_Nil: "creates_only_below p []"
  by (simp add: creates_only_below_def)

lemma creates_only_below_append:
  assumes "creates_only_below p e1" and "creates_only_below p e2"
  shows "creates_only_below p (e1 @ e2)"
  using assms unfolding creates_only_below_def list_all_mounted_below
  by (simp add: Un_iff) blast

lemma creates_only_below_plain:
  assumes "list_all (\<lambda>e. \<not> is_create e \<and> \<not> is_add e) evs"
  shows "creates_only_below p evs"
proof -
  have "filter is_create evs = []" "filter is_add evs = []"
    using assms by (induction evs) auto
  moreover have "CreateWidget t opts h \<notin> set evs" for t opts h
    using assms by (auto simp: list_all_iff)
  ultimately show ?thesis
    by (simp add: creates_only_below_def list_all_mounted_below)
qed

lemma creates_only_below_mount:
  assumes "strict_prefix p q"
  shows "creates_only_below p [CreateWidget t opts h, OnAny h this, Append parent h, Add q h]"
  using assms by (simp add: creates_only_below_def)

lemma below_trans:
  assumes "\<exists>evs. trace b = trace a @ evs \<and> creates_only_below p evs"
    and "\<exists>evs. trace c = trace b @ evs \<and> creates_only_below p evs"
  shows "\<exists>evs. trace c = trace a @ evs \<and> creates_only_below p evs"
proof -
  from assms obtain e1 e2 where "trace b = trace a @ e1" "creates_only_below p e1"
    "trace c = trace b @ e2" "creates_only_below p e2" by blast
  then have "trace c = trace a @ (e1 @ e2) \<and> creates_only_below p (e1 @ e2)"
    by (simp add: creates_only_below_append)
  then show ?thesis by blast
qed

lemma below_step:
  assumes "trace b = trace a @ evs" and "creates_only_below p evs"
  shows "\<exists>evs. trace b = trace a @ evs \<and> creates_only_below p evs"
  using assms by blast

lemma mount_below:
  shows "strict_prefix p q \<Longrightarrow>
           \<exists>evs. trace (snd (mountComponent E c q w)) = trace w @ evs \<and> creates_only_below p evs"
    and "strict_prefix p q \<Longrightarrow>
           \<exists>evs. trace (snd (mountEach E q i cs w)) = trace w @ evs \<and> creates_only_below p evs"
proof (induction c q w and q i cs w rule: mount_induct[of E])
  case (Component this el rid rc q w)
  show ?case
  proof (cases "idops_getParent q w")
    case (Inl e)
    then show ?thesis by (simp add: creates_only_below_Nil)
  next
    case (Inr parent)
    show ?thesis
    proof (cases "blessed E (etype el)")
      case False
      with Inr show ?thesis by (simp add: mountNode_def creates_only_below_Nil)
    next
      case True
      obtain node w1 where mn: "mountNode E this parent el w = (Inr node, w1)"
        using True by (simp add: prim_defs)
      note n = mountNode_Inr[OF mn]
      obtain children w3 where ic: "instantiateChildren (childrenToUse (echildren el)) (idops_add q node w1) = (children, w3)"
        by (cases "instantiateChildren (childrenToUse (echildren el)) (idops_add q node w1)")
      have t3: "trace w3 = trace w @ [CreateWidget (etype el) (solveClass E (eoptions el)) node,
          OnAny node this, Append parent node, Add q node]"
        using instantiateChildren_world[OF ic] n by (simp add: idops_add_def)
      have q3: "\<exists>evs. trace w3 = trace w @ evs \<and> creates_only_below p evs"
        using t3 creates_only_below_mount[OF Component.prems] by blast
      obtain r4 w4 where me: "mountEach E q 0 children w3 = (r4, w4)"
        by (cases "mountEach E q 0 children w3")
      have "\<exists>evs. trace w4 = trace w3 @ evs \<and> creates_only_below p evs"
        using Component.IH[OF Inr mn ic Component.prems] me by simp
      with q3 have q4: "\<exists>evs. trace w4 = trace w @ evs \<and> creates_only_below p evs"
        by (rule below_trans)
      show ?thesis
      proof (cases r4)
        case (Inl e)
        with Inr mn ic me q4 show ?thesis by simp
      next
        case r: (Inr mounted)
        have "\<exists>evs. trace (debouncedRender w4) = trace w4 @ evs \<and> creates_only_below p evs"
          by (simp add: debouncedRender_def creates_only_below_def)
        with q4 have "\<exists>evs. trace (debouncedRender w4) = trace w @ evs \<and> creates_only_below p evs"
          by (rule below_trans)
        with Inr mn ic me r show ?thesis by simp
      qed
    qed
  qed
next
  case (Nil q i w)
  show ?case by (simp add: creates_only_below_Nil)
next
  case (Cons q i child rest w)
  obtain r1 w1 where m: "mountComponent E child (q @ [i]) w = (r1, w1)"
    by (cases "mountComponent E child (q @ [i]) w")
  have sp: "strict_prefix p (q @ [i])"
    using Cons.prems by (auto simp: strict_prefix_def prefix_def)
  have q1: "\<exists>evs. trace w1 = trace w @ evs \<and> creates_only_below p evs"
    using Cons.IH(1)[OF sp] m by simp
  show ?case
  proof (cases r1)
    case (Inl e)
    with m q1 show ?thesis by simp
  next
    case (Inr child')
    obtain r2 w2 where me: "mountEach E q (Suc i) rest w1 = (r2, w2)"
      by (cases "mountEach E q (Suc i) rest w1")
    have "\<exists>evs. trace w2 = trace w1 @ evs \<and> creates_only_below p evs"
      using Cons.IH(2)[OF m[unfolded Inr] Cons.prems] me by simp
    with q1 have "\<exists>evs. trace w2 = trace w @ evs \<and> creates_only_below p evs"
      by (rule below_trans)
    with m Inr me show ?thesis by (cases r2) simp_all
  qed
qed

lemma unmount_below:
  "\<exists>evs. trace (snd (unmountComponent c w)) = trace w @ evs \<and> creates_only_below p evs"
proof -
  from unmount_trace(1)[of c w] obtain evs where
    t: "trace (snd (unmountComponent c w)) = trace w @ evs" and td: "list_all teardown evs"
    by blast
  have "\<not> is_create e \<and> \<not> is_add e" if "teardown e" for e
    using that by (cases e) simp_all
  with td have "list_all (\<lambda>e. \<not> is_create e \<and> \<not> is_add e) evs"
    by (auto simp: list_all_iff)
  then have "creates_only_below p evs" by (rule creates_only_below_plain)
  with t show ?thesis by blast
qed

lemma receive_below:
  assumes "wf_comp p c"
  shows "\<exists>evs. trace (snd (receiveComponent E c nextElement w)) = trace w @ evs \<and>
           creates_only_below p evs"
proof (rule receive_rel(1)[where Q="\<lambda>a b. \<exists>evs. trace b = trace a @ evs \<and> creates_only_below p evs"
        and ?p0.0=p and p=p, OF _ _ _ _ _ _ _ assms])
  fix a b c :: world
  assume "\<exists>evs. trace b = trace a @ evs \<and> creates_only_below p evs"
    and "\<exists>evs. trace c = trace b @ evs \<and> creates_only_below p evs"
  then show "\<exists>evs. trace c = trace a @ evs \<and> creates_only_below p evs"
    by (rule below_trans)
next
  fix c q w
  show "\<exists>evs. trace (snd (unmountComponent c w)) = trace w @ evs \<and> creates_only_below p evs"
    by (rule unmount_below)
next
  fix c q w
  assume "strict_prefix p q"
  then show "\<exists>evs. trace (snd (mountComponent E c q w)) = trace w @ evs \<and> creates_only_below p evs"
    by (rule mount_below(1))
qed (simp_all add: update_node_def instantiate_def debouncedRender_def creates_only_below_def)

lemma receiveAll_below:
  assumes "wf_comp p c"
  shows "\<exists>evs. trace (snd (receiveAll E c nexts w)) = trace w @ evs \<and> creates_only_below p evs"
  using assms
proof (induction nexts arbitrary: c w)
  case Nil
  show ?case by (simp add: creates_only_below_Nil)
next
  case (Cons n rest)
  obtain r1 w1 where r: "receiveComponent E c n w = (r1, w1)"
    by (cases "receiveComponent E c n w")
  have q1: "\<exists>evs. trace w1 = trace w @ evs \<and> creates_only_below p evs"
    using receive_below[OF Cons.prems, of E n w] r by simp
  show ?case
  proof (cases r1)
    case (Inl e)
    with r q1 show ?thesis by simp
  next
    case (Inr c1)
    have "wf_comp p c1"
      using receive_struct(1)[OF Cons.prems r[unfolded Inr]] by simp
    then have "\<exists>evs. trace (snd (receiveAll E c1 rest w1)) = trace w1 @ evs \<and> creates_only_below p evs"
      by (rule Cons.IH)
    with q1 have "\<exists>evs. trace (snd (receiveAll E c1 rest w1)) = trace w @ evs \<and> creates_only_below p evs"
      by (rule below_trans)
    with r Inr show ?thesis by simp
  qed
qed

lemma receive_childless:
  assumes "receiveComponent E c nextElement w = (Inr c', w')"
    and "childrenToUse (echildren nextElement) = []"
  shows "\<exists>evs. trace w' = trace w @ evs \<and> list_all (\<lambda>e. \<not> is_create e) evs"
proof -
  obtain this el rid rc where c: "c = Component this el rid rc" by (cases c)
  from assms(1)[unfolded c] obtain ID node slots w2 children w3 where
    rc: "reconcileEach E (rendered rc) (childrenToUse (echildren nextElement))
       (update_node node (solveClass E (eoptions nextElement)) w) = (Inr slots, w2)"
    and mf: "mountFresh E ID 0 slots w2 = (Inr children, w3)"
    and w': "w' = debouncedRender w3"
    by (rule receiveComponent_Inr)
  let ?w1 = "update_node node (solveClass E (eoptions nextElement)) w"
  from rc assms(2) have s: "slots = []" and u: "w2 = snd (unmountEach (rendered rc) ?w1)"
    by (auto split: sum.splits prod.splits)
  from unmount_trace(2)[of "rendered rc" ?w1] u obtain td where
    td: "trace w2 = trace ?w1 @ td" "list_all teardown td" by auto
  have "\<not> is_create e" if "teardown e" for e
    using that by (cases e) simp_all
  with td(2) have nc: "list_all (\<lambda>e. \<not> is_create e) td"
    by (auto simp: list_all_iff)
  have "w3 = w2" using mf s by simp
  then have "trace w' = trace w @ ([Update node (solveClass E (eoptions nextElement))] @ td @ [DebouncedRender])"
    using w' td(1) by (simp add: update_node_def debouncedRender_def)
  moreover have "list_all (\<lambda>e. \<not> is_create e)
      ([Update node (solveClass E (eoptions nextElement))] @ td @ [DebouncedRender])"
    using nc by simp
  ultimately show ?thesis by blast
qed

lemma receiveAll_childless:
  assumes "receiveAll E c nexts w = (Inr c', w')"
    and "list_all (\<lambda>n. childrenToUse (echildren n) = []) nexts"
  shows "\<exists>evs. trace w' = trace w @ evs \<and> list_all (\<lambda>e. \<not> is_create e) evs"
  using assms
proof (induction nexts arbitrary: c w)
  case Nil
  then show ?case by simp
next
  case (Cons n rest)
  from Cons.prems(1) obtain c1 w1 where
    r: "receiveComponent E c n w = (Inr c1, w1)" and ra: "receiveAll E c1 rest w1 = (Inr c', w')"
    by (auto split: sum.splits prod.splits)
  from receive_childless[OF r] Cons.prems(2) have
    "\<exists>evs. trace w1 = trace w @ evs \<and> list_all (\<lambda>e. \<not> is_create e) evs" by simp
  moreover from Cons.IH[OF ra] Cons.prems(2) have
    "\<exists>evs. trace w' = trace w1 @ evs \<and> list_all (\<lambda>e. \<not> is_create e) evs" by simp
  ultimately show ?case by (rule trace_rel_trans)
qed


text \<open>
  C1. After a successful mount, any sequence of successful updates of the instance
  leaves its identifier, its object identity and the widget the registry holds for the
  identifier, the one the mount created, as the mount made them. Every update applies
  the solved options of its element to that widget. The updates construct no widget for
  the node: every widget their calls create is added by them to the registry under an
  identifier strictly below the node's, the widget of a child mounted anew, and they
  create as many widgets as they add registry entries; when the elements of the updates
  have no children, no call creates a widget. No call of the updates binds or unbinds
  the node's identifier in the registry.
\<close>

theorem update_preserves_identity:
  assumes "mountComponent E c rootID w = (Inr c1, w1)"
    and "receiveAll E c1 nexts w1 = (Inr c2, w2)"
  shows "\<exists>node. rootNodeID c1 = Some rootID \<and> blessedNodes w1 rootID = Some node \<and>
           CreateWidget (etype (currentElement c)) (solveClass E (eoptions (currentElement c))) node
             \<in> set (trace w1) \<and>
           rootNodeID c2 = Some rootID \<and> blessedNodes w2 rootID = Some node \<and>
           ref c2 = ref c \<and>
           (\<exists>evs. trace w2 = trace w1 @ evs \<and>
                  list_all (\<lambda>n. Update node (solveClass E (eoptions n)) \<in> set evs) nexts \<and>
                  creates_only_below rootID evs \<and>
                  (list_all (\<lambda>n. childrenToUse (echildren n) = []) nexts \<longrightarrow>
                     list_all (\<lambda>e. \<not> is_create e) evs) \<and>
                  list_all (\<lambda>e. \<not> touches rootID e) evs)"
proof -
  have wf1: "wf_comp rootID c1" and r1: "ref c1 = ref c"
    using mount_struct(1)[OF assms(1)] by simp_all
  have b1: "blessedNodes w1 rootID = Some (nextHandle w)"
    by (rule mount_registry(1)[OF assms(1)])
  have n1: "nextHandle w < nextHandle w1"
    by (rule mount_nextHandle_less[OF assms(1)])
  obtain this el rid rc where c: "c = Component this el rid rc" by (cases c)
  have cr: "CreateWidget (etype (currentElement c)) (solveClass E (eoptions (currentElement c)))
      (nextHandle w) \<in> set (trace w1)"
    using mount_trace_head[OF assms(1)[unfolded c]] c by auto
  from receiveAll_identity[OF wf1 assms(2) b1 n1] obtain evs where
    id: "rootNodeID c2 = Some rootID" "ref c2 = ref c1" "blessedNodes w2 rootID = Some (nextHandle w)"
    and t: "trace w2 = trace w1 @ evs"
    and e: "list_all (\<lambda>e. \<not> touches rootID e) evs" "list_all (\<lambda>e. \<not> creates (nextHandle w) e) evs"
      "list_all (\<lambda>n. Update (nextHandle w) (solveClass E (eoptions n)) \<in> set evs) nexts"
    by (auto simp: wf_comp_rootNodeID)
  have below: "creates_only_below rootID evs"
    using receiveAll_below[OF wf1, of E nexts w1] assms(2) t by auto
  have childless: "list_all (\<lambda>e. \<not> is_create e) evs"
    if "list_all (\<lambda>n. childrenToUse (echildren n) = []) nexts"
    using receiveAll_childless[OF assms(2) that] t by auto
  have "trace w2 = trace w1 @ evs \<and>
      list_all (\<lambda>n. Update (nextHandle w) (solveClass E (eoptions n)) \<in> set evs) nexts \<and>
      creates_only_below rootID evs \<and>
      (list_all (\<lambda>n. childrenToUse (echildren n) = []) nexts \<longrightarrow>
         list_all (\<lambda>e. \<not> is_create e) evs) \<and>
      list_all (\<lambda>e. \<not> touches rootID e) evs"
    using t e below childless by blast
  then show ?thesis using wf1 r1 b1 cr id by (auto simp: wf_comp_rootNodeID)
qed


lemmas eval_defs = example_env_def empty_world_def idops_getParent_def idops_get_def
  idops_drop_def offAny_def remove_node_def update_node_def shouldUpdateReactComponent_def prim_defs

lemma mount_box10:
  "fst (mountComponent example_env (Component 0 box10 None None) [0] empty_world)
     = Inr (Component 0 box10 (Some [0]) (Some []))"
  by (simp add: box10_def eval_defs)

lemma update_box10:
  "fst (receiveAll example_env (Component 0 box10 (Some [0]) (Some [])) [box20, box10]
          (snd (mountComponent example_env (Component 0 box10 None None) [0] empty_world)))
     = Inr (Component 0 box10 (Some [0]) (Some []))"
  by (simp add: box10_def box20_def eval_defs)

lemma trace_update_box10:
  "trace (snd (receiveAll example_env (Component 0 box10 (Some [0]) (Some [])) [box20, box10]
          (snd (mountComponent example_env (Component 0 box10 None None) [0] empty_world))))
     = trace (snd (mountComponent example_env (Component 0 box10 None None) [0] empty_world)) @
       [Update 1 [(''width'', PNum 20)], DebouncedRender,
        Update 1 [(''width'', PNum 10)], DebouncedRender]"
  by (simp add: box10_def box20_def eval_defs)


text \<open>
  The spec's example: a box of width 10 is mounted and updated to width 20, then back to
  width 10. The log of the two updates holds the two option updates of widget 1 and the
  two redraw requests, and nothing else. A log in which an update had created a widget,
  or in which a created widget had been added under the node's own identifier, is not
  one that creates widgets only below the node.
\<close>

theorem update_preserves_identity_witness:
  "\<exists>w1 c2 w2.
      mountComponent example_env (Component 0 box10 None None) [0] empty_world
        = (Inr (Component 0 box10 (Some [0]) (Some [])), w1) \<and>
      receiveAll example_env (Component 0 box10 (Some [0]) (Some [])) [box20, box10] w1 = (Inr c2, w2) \<and>
      blessedNodes w1 [0] = Some 1 \<and> blessedNodes w2 [0] = Some 1 \<and> rootNodeID c2 = Some [0] \<and>
      trace w1 = [CreateWidget ''box'' [(''width'', PNum 10)] 1, OnAny 1 0, Append 0 1, Add [0] 1,
                  DebouncedRender] \<and>
      trace w2 = trace w1 @ [Update 1 [(''width'', PNum 20)], DebouncedRender,
                             Update 1 [(''width'', PNum 10)], DebouncedRender] \<and>
      childrenToUse (echildren box20) = [] \<and> childrenToUse (echildren box10) = [] \<and>
      creates_only_below [0] [Update 1 [(''width'', PNum 20)], DebouncedRender,
                              Update 1 [(''width'', PNum 10)], DebouncedRender] \<and>
      \<not> creates_only_below [0] [Update 1 [(''width'', PNum 20)],
                                CreateWidget ''box'' [(''width'', PNum 20)] 2, DebouncedRender] \<and>
      \<not> creates_only_below [0] [CreateWidget ''box'' [(''width'', PNum 20)] 2, Add [0] 2]"
proof -
  obtain w1 where m: "mountComponent example_env (Component 0 box10 None None) [0] empty_world
      = (Inr (Component 0 box10 (Some [0]) (Some [])), w1)"
    using mount_box10 by (metis prod.collapse)
  then have w1: "w1 = snd (mountComponent example_env (Component 0 box10 None None) [0] empty_world)"
    by simp
  obtain w2 where r: "receiveAll example_env (Component 0 box10 (Some [0]) (Some [])) [box20, box10] w1
      = (Inr (Component 0 box10 (Some [0]) (Some [])), w2)"
    using update_box10 unfolding w1 by (metis prod.collapse)
  then have w2: "w2 = snd (receiveAll example_env (Component 0 box10 (Some [0]) (Some [])) [box20, box10] w1)"
    by simp
  have b1: "blessedNodes w1 [0] = Some 1"
    using mount_registry(1)[OF m] by (simp add: empty_world_def)
  have t1: "trace w1 = [CreateWidget ''box'' [(''width'', PNum 10)] 1, OnAny 1 0, Append 0 1, Add [0] 1,
      DebouncedRender]"
    unfolding w1 by (simp add: box10_def eval_defs)
  have t2: "trace w2 = trace w1 @ [Update 1 [(''width'', PNum 20)], DebouncedRender,
      Update 1 [(''width'', PNum 10)], DebouncedRender]"
    unfolding w2 w1 by (rule trace_update_box10)
  from update_preserves_identity[OF m r]
  show ?thesis
  proof (elim exE conjE)
    fix node evs
    assume n: "blessedNodes w1 [0] = Some node"
      and b2: "blessedNodes w2 [0] = Some node"
      and t: "trace w2 = trace w1 @ evs"
      and k: "creates_only_below [0] evs"
    have node: "node = 1" using n b1 by simp
    have evs: "evs = [Update 1 [(''width'', PNum 20)], DebouncedRender,
        Update 1 [(''width'', PNum 10)], DebouncedRender]"
      using t t2 by simp
    have "childrenToUse (echildren box20) = []" "childrenToUse (echildren box10) = []"
      by (simp_all add: box10_def box20_def)
    moreover have "\<not> creates_only_below [0] [Update 1 [(''width'', PNum 20)],
        CreateWidget ''box'' [(''width'', PNum 20)] 2, DebouncedRender]"
      "\<not> creates_only_below [0] [CreateWidget ''box'' [(''width'', PNum 20)] 2, Add [0] 2]"
      by (simp_all add: creates_only_below_def)
    ultimately show ?thesis using m r b1 b2 t1 t2 k node evs by auto
  qed
qed

section \<open>The handler after an update\<close>

lemma fire_stale:
  "fire example_env (Component 0 clickable_box (Some [0]) (Some []))
     (snd (receiveComponent example_env (Component 0 clickable_box (Some [0]) (Some []))
            (Element ''box'' [(''onClick'', PFun 2)] NoChildrenKey)
            (snd (mountComponent example_env (Component 0 clickable_box None None) [0] empty_world))))
     1 ''click'' [] = Some (1, [])"
  by (simp add: fire_def dispatcher_def clickable_box_def eval_defs)

lemma update_clickable_box:
  "fst (receiveComponent example_env (Component 0 clickable_box (Some [0]) (Some []))
            (Element ''box'' [(''onClick'', PFun 2)] NoChildrenKey)
            (snd (mountComponent example_env (Component 0 clickable_box None None) [0] empty_world)))
    = Inr (Component 0 clickable_box (Some [0]) (Some []))"
  by (simp add: clickable_box_def eval_defs)

text \<open>
  C3 says that after an update an event on the widget calls the handler found in the
  props of the new element. The code does not do so: \<^verbatim>\<open>receiveComponent\<close> assigns no
  field of the instance, so \<^verbatim>\<open>_currentElement\<close> stays the element of the mount
  (\<open>receive_struct\<close>), and the dispatcher keeps reading the handlers of that element.
  A box is mounted with the click handler 1 and updated to an element whose click
  handler is 2; a click on its widget then still calls handler 1.
\<close>

theorem handler_after_update_is_stale:
  "\<exists>c1 w1 c2 w2.
      mountComponent example_env (Component 0 clickable_box None None) [0] empty_world = (Inr c1, w1) \<and>
      receiveComponent example_env c1 (Element ''box'' [(''onClick'', PFun 2)] NoChildrenKey) w1 = (Inr c2, w2) \<and>
      map_of (eoptions (Element ''box'' [(''onClick'', PFun 2)] NoChildrenKey))
        (''on'' @ startCase example_env ''click'') = Some (PFun 2) \<and>
      fire example_env c2 w2 1 ''click'' [] = Some (1, [])"
proof -
  obtain w1 where m: "mountComponent example_env (Component 0 clickable_box None None) [0] empty_world
      = (Inr (Component 0 clickable_box (Some [0]) (Some [])), w1)"
    using mount_clickable_box by (metis prod.collapse)
  then have w1: "w1 = snd (mountComponent example_env (Component 0 clickable_box None None) [0] empty_world)"
    by simp
  obtain w2 where r: "receiveComponent example_env (Component 0 clickable_box (Some [0]) (Some []))
      (Element ''box'' [(''onClick'', PFun 2)] NoChildrenKey) w1
      = (Inr (Component 0 clickable_box (Some [0]) (Some [])), w2)"
    using update_clickable_box unfolding w1 by (metis prod.collapse)
  then have w2: "w2 = snd (receiveComponent example_env (Component 0 clickable_box (Some [0]) (Some []))
      (Element ''box'' [(''onClick'', PFun 2)] NoChildrenKey) w1)"
    by simp
  have "fire example_env (Component 0 clickable_box (Some [0]) (Some [])) w2 1 ''click'' [] = Some (1, [])"
    unfolding w2 w1 by (rule fire_stale)
  moreover have "map_of (eoptions (Element ''box'' [(''onClick'', PFun 2)] NoChildrenKey))
        (''on'' @ startCase example_env ''click'') = Some (PFun 2)"
    by (simp add: example_env_def)
  ultimately show ?thesis using m r by blast
qed

section \<open>Redraw requests\<close>

lemmas count_defs = redraws_def mutations_def

lemma instantiateChildren_counts:
  "instantiateChildren es w = (cs, w') \<Longrightarrow> redraws w' = redraws w \<and> mutations w' = mutations w"
  using instantiateChildren_world[of es w cs w'] by (simp add: count_defs)

lemma mount_counts:
  shows "mountComponent E c p w = (Inr c', w') \<Longrightarrow>
           redraws w' = redraws w + esize (currentElement c) \<and>
           mutations w' = mutations w + esize (currentElement c)"
    and "mountEach E p i cs w = (Inr mounted, w') \<Longrightarrow>
           redraws w' = redraws w + sum_list (map (esize \<circ> currentElement) cs) \<and>
           mutations w' = mutations w + sum_list (map (esize \<circ> currentElement) cs)"
proof (induction c p w and p i cs w arbitrary: c' w' and mounted w' rule: mount_induct[where E=E])
  case (Component this el rid rc p w)
  from Component.prems obtain parent node w1 children w3 mounted w4 where
    gp: "idops_getParent p w = Inr parent"
    and mn: "mountNode E this parent el w = (Inr node, w1)"
    and ic: "instantiateChildren (childrenToUse (echildren el)) (idops_add p node w1) = (children, w3)"
    and me: "mountEach E p 0 children w3 = (Inr mounted, w4)"
    and w': "w' = debouncedRender w4"
    by (rule mountComponent_Inr)
  have c3: "redraws w3 = redraws w" "mutations w3 = Suc (mutations w)"
    using instantiateChildren_counts[OF ic] mountNode_Inr(3)[OF mn]
    by (simp_all add: count_defs idops_add_def)
  have "sum_list (map esize (map currentElement children)) = sum_list (map esize (childrenToUse (echildren el)))"
    using instantiateChildren_elements[OF ic] by simp
  then have ch: "(\<Sum>a\<leftarrow>children. esize (currentElement a)) = sum_list (map esize (childrenToUse (echildren el)))"
    by (simp add: comp_def)
  from Component.IH[OF gp mn ic me] c3 ch w' show ?case
    by (simp add: count_defs debouncedRender_def esize_children[of el])
next
  case (Nil p i w)
  then show ?case by simp
next
  case (Cons p i child rest w)
  from Cons.prems obtain child' w1 rest' where
    m: "mountComponent E child (p @ [i]) w = (Inr child', w1)"
    and r: "mountEach E p (Suc i) rest w1 = (Inr rest', w')"
    by (rule mountEach_Cons_Inr)
  from Cons.IH(1)[OF m] Cons.IH(2)[OF m r] show ?case by simp
qed

lemma unmount_counts:
  "redraws (snd (unmountComponent c w)) = redraws w \<and> mutations (snd (unmountComponent c w)) = mutations w"
  "redraws (snd (unmountEach cs w)) = redraws w \<and> mutations (snd (unmountEach cs w)) = mutations w"
  by (rule unmount_rel[where Q="\<lambda>a b. redraws b = redraws a \<and> mutations b = mutations a" and S=UNIV];
      simp add: count_defs offAny_def remove_node_def idops_drop_def)+

lemma mountFresh_counts:
  "mountFresh E p i slots w = (Inr cs, w') \<Longrightarrow> redraws w' + mutations w = redraws w + mutations w'"
proof (induction slots arbitrary: i w cs)
  case Nil
  then show ?case by simp
next
  case (Cons s rest)
  show ?case
  proof (cases s)
    case (Kept child)
    with Cons.prems obtain rest' where "mountFresh E p (Suc i) rest w = (Inr rest', w')"
      by (auto split: sum.splits prod.splits)
    then show ?thesis by (rule Cons.IH)
  next
    case (Fresh child)
    with Cons.prems obtain child' w1 rest' where
      m: "mountComponent E child (p @ [i]) w = (Inr child', w1)"
      and r: "mountFresh E p (Suc i) rest w1 = (Inr rest', w')"
      by (auto split: sum.splits prod.splits)
    from mount_counts(1)[OF m] Cons.IH[OF r] show ?thesis by simp
  qed
qed

lemma receive_counts:
  shows "receiveComponent E c nextElement w = (Inr c', w') \<Longrightarrow>
           redraws w' + mutations w = redraws w + mutations w' \<and> redraws w < redraws w'"
    and "reconcileEach E prev nexts w = (Inr slots, w') \<Longrightarrow>
           redraws w' + mutations w = redraws w + mutations w' \<and> redraws w \<le> redraws w'"
proof (induction c nextElement w and prev nexts w arbitrary: c' w' and slots w'
    rule: receive_induct[where E=E])
  case (Receive this el rid rc nextElement w)
  from Receive.prems obtain ID node slots w2 children w3 where
    rid: "rid = Some ID" and g: "idops_get ID w = Inr node"
    and rc: "reconcileEach E (rendered rc) (childrenToUse (echildren nextElement))
       (update_node node (solveClass E (eoptions nextElement)) w) = (Inr slots, w2)"
    and mf: "mountFresh E ID 0 slots w2 = (Inr children, w3)"
    and w': "w' = debouncedRender w3"
    by (rule receiveComponent_Inr)
  let ?w1 = "update_node node (solveClass E (eoptions nextElement)) w"
  have c1: "redraws ?w1 = redraws w" "mutations ?w1 = Suc (mutations w)"
    by (simp_all add: count_defs update_node_def)
  have c3: "redraws w' = Suc (redraws w3)" "mutations w' = mutations w3"
    using w' by (simp_all add: count_defs debouncedRender_def)
  have "redraws w2 \<le> redraws w3"
    using mountFresh_trace_prefix[of w2 E ID 0 slots] mf
    by (auto simp: prefix_def redraws_def)
  with Receive.IH[OF rid g rc] mountFresh_counts[OF mf] c1 c3 show ?case by simp
next
  case (Nil prev w)
  then obtain u where "unmountEach prev w = (Inr u, w')"
    by (auto split: sum.splits prod.splits)
  with unmount_counts(2)[of prev w] show ?case by simp
next
  case (Fresh n nexts w)
  from Fresh.prems obtain child w1 slots' where
    i: "instantiate n w = (child, w1)" and rc: "reconcileEach E [] nexts w1 = (Inr slots', w')"
    by (auto split: sum.splits prod.splits)
  have "redraws w1 = redraws w" "mutations w1 = mutations w"
    using i by (auto simp: count_defs instantiate_def)
  with Fresh.IH[OF i rc] show ?case by simp
next
  case (Slot pc prev n nexts w)
  show ?case
  proof (cases "shouldUpdateReactComponent (currentElement pc) n")
    case True
    with Slot.prems obtain child w1 slots' where
      r: "receiveComponent E pc n w = (Inr child, w1)"
      and rc: "reconcileEach E prev nexts w1 = (Inr slots', w')"
      by (auto split: sum.splits prod.splits)
    from Slot.IH(1)[OF True r] Slot.IH(2)[OF True r rc] show ?thesis by simp
  next
    case False
    with Slot.prems obtain u w1 child w2 slots' where
      um: "unmountComponent pc w = (Inr u, w1)" and i: "instantiate n w1 = (child, w2)"
      and rc: "reconcileEach E prev nexts w2 = (Inr slots', w')"
      by (auto split: sum.splits prod.splits)
    have "redraws w2 = redraws w" "mutations w2 = mutations w"
      using unmount_counts(1)[of pc w] um i by (auto simp: count_defs instantiate_def)
    with Slot.IH(3)[OF False um i rc] show ?thesis by simp
  qed
qed

text \<open>
  C4, as the code has it. Every successful mount and every successful update ends with
  a redraw request of its own: mounting a tree of \<open>n\<close> elements issues \<open>n\<close>
  redraw requests, an update issues as many redraw requests as the mounts and updates
  it performs, itself and below, at least one, and an unmount issues none.
\<close>

theorem one_redraw_per_operation:
  "(mountComponent E c rootID w = (Inr c', w') \<longrightarrow>
      redraws w' = redraws w + esize (currentElement c) \<and>
      mutations w' = mutations w + esize (currentElement c)) \<and>
   (receiveComponent E c nextElement w = (Inr c', w') \<longrightarrow>
      redraws w' - redraws w = mutations w' - mutations w \<and> redraws w < redraws w') \<and>
   redraws (snd (unmountComponent c w)) = redraws w"
proof (intro conjI impI)
  assume "mountComponent E c rootID w = (Inr c', w')"
  then show "redraws w' = redraws w + esize (currentElement c)"
    "mutations w' = mutations w + esize (currentElement c)"
    using mount_counts(1) by blast+
next
  assume "receiveComponent E c nextElement w = (Inr c', w')"
  from receive_counts(1)[OF this]
  show "redraws w' - redraws w = mutations w' - mutations w" "redraws w < redraws w'"
    by linarith+
next
  show "redraws (snd (unmountComponent c w)) = redraws w"
    using unmount_counts(1) by simp
qed

text \<open>
  C4 as the spec has it, one redraw request for a pass whatever the number of its
  operations, fails: the pass that mounts a box with two children makes three mounts,
  and three redraw requests reach the widget library, not one.
\<close>

theorem three_redraws_in_one_pass:
  "fst (mountComponent example_env (Component 0 two_children None None) [0] empty_world)
     = Inr two_children_mounted \<and>
   redraws empty_world = 0 \<and>
   mutations (snd (mountComponent example_env (Component 0 two_children None None) [0] empty_world)) = 3 \<and>
   redraws (snd (mountComponent example_env (Component 0 two_children None None) [0] empty_world)) = 3"
  by (simp add: count_defs two_children_mounted_def two_children_def eval_defs)


lemma update_box20:
  "fst (receiveComponent example_env (Component 0 box10 (Some [0]) (Some [])) box20
          (snd (mountComponent example_env (Component 0 box10 None None) [0] empty_world)))
     = Inr (Component 0 box10 (Some [0]) (Some []))"
  by (simp add: box10_def box20_def eval_defs)

theorem one_redraw_per_operation_witness:
  "\<exists>w1 c2 w2.
      mountComponent example_env (Component 0 box10 None None) [0] empty_world
        = (Inr (Component 0 box10 (Some [0]) (Some [])), w1) \<and>
      redraws w1 = redraws empty_world + 1 \<and> mutations w1 = mutations empty_world + 1 \<and>
      receiveComponent example_env (Component 0 box10 (Some [0]) (Some [])) box20 w1 = (Inr c2, w2) \<and>
      redraws w2 - redraws w1 = mutations w2 - mutations w1 \<and> redraws w1 < redraws w2"
proof -
  obtain w1 where m: "mountComponent example_env (Component 0 box10 None None) [0] empty_world
      = (Inr (Component 0 box10 (Some [0]) (Some [])), w1)"
    using mount_box10 by (metis prod.collapse)
  then have w1: "w1 = snd (mountComponent example_env (Component 0 box10 None None) [0] empty_world)"
    by simp
  obtain w2 where r: "receiveComponent example_env (Component 0 box10 (Some [0]) (Some [])) box20 w1
      = (Inr (Component 0 box10 (Some [0]) (Some [])), w2)"
    using update_box20 unfolding w1 by (metis prod.collapse)
  have "redraws w1 = redraws empty_world + 1 \<and> mutations w1 = mutations empty_world + 1"
    using one_redraw_per_operation[of example_env "Component 0 box10 None None" "[0]" empty_world
        "Component 0 box10 (Some [0]) (Some [])" w1] m
    by (simp add: box10_def)
  moreover have "redraws w2 - redraws w1 = mutations w2 - mutations w1 \<and> redraws w1 < redraws w2"
    using one_redraw_per_operation[of example_env "Component 0 box10 (Some [0]) (Some [])" _ w1
        "Component 0 box10 (Some [0]) (Some [])" w2 box20] r
    by simp
  ultimately show ?thesis using m r by blast
qed

section \<open>Worlds the component reaches\<close>

text \<open>
  The empty world is well-formed, and mounting, unmounting and updating keep a world
  well-formed. In a well-formed world the parent widget of an identifier has been
  created.
\<close>

lemma world_ok_empty: "world_ok empty_world"
  by (simp add: world_ok_def empty_world_def)

lemma world_ok_parent:
  "world_ok w \<Longrightarrow> idops_getParent p w = Inr parent \<Longrightarrow> parent < nextHandle w"
  by (auto simp: world_ok_def idops_getParent_def idops_get_def split: if_splits option.splits)

lemma mount_world_ok:
  "world_ok w \<longrightarrow> world_ok (snd (mountComponent E c p w))"
  by (rule mount_rel(1)[where Q="\<lambda>a b. world_ok a \<longrightarrow> world_ok b" and ?p0.0="[]"])
     (auto simp: world_ok_def prim_defs less_Suc_eq)

lemma unmount_world_ok:
  "world_ok w \<longrightarrow> world_ok (snd (unmountComponent c w))"
  by (rule unmount_rel(1)[where Q="\<lambda>a b. world_ok a \<longrightarrow> world_ok b" and S=UNIV])
     (auto simp: world_ok_def offAny_def remove_node_def idops_drop_def)

lemma receive_world_ok:
  assumes "wf_comp p c"
  shows "world_ok w \<longrightarrow> world_ok (snd (receiveComponent E c nextElement w))"
proof (rule receive_rel(1)[where Q="\<lambda>a b. world_ok a \<longrightarrow> world_ok b" and ?p0.0=p and p=p,
        OF _ _ _ _ _ _ _ assms])
  fix c q w
  show "world_ok w \<longrightarrow> world_ok (snd (unmountComponent c w))" by (rule unmount_world_ok)
  show "world_ok w \<longrightarrow> world_ok (snd (mountComponent E c q w))" by (rule mount_world_ok)
qed (auto simp: world_ok_def update_node_def instantiate_def debouncedRender_def)

text \<open>
  After a successful mount every identifier of the mounted tree is in the registry, and
  the unmount of a tree whose identifiers are in the registry succeeds.
\<close>

lemma wf_ids_from:
  "wf_comps p i cs \<Longrightarrow> ids_list cs \<subseteq> {q. \<exists>j\<ge>i. prefix (p @ [j]) q}"
proof (induction cs arbitrary: i)
  case Nil
  show ?case by simp
next
  case (Cons c cs)
  have "ids c \<subseteq> {q. prefix (p @ [i]) q}"
    using Cons.prems wf_ids(1)[of "p @ [i]" c] by simp
  then have a: "ids c \<subseteq> {q. \<exists>j\<ge>i. prefix (p @ [j]) q}"
    by (auto intro: exI[of _ i])
  have "ids_list cs \<subseteq> {q. \<exists>j\<ge>Suc i. prefix (p @ [j]) q}"
    using Cons.IH[of "Suc i"] Cons.prems by simp
  moreover have "{q. \<exists>j\<ge>Suc i. prefix (p @ [j]) q} \<subseteq> {q. \<exists>j\<ge>i. prefix (p @ [j]) q}"
    by (blast intro: Suc_leD)
  ultimately have b: "ids_list cs \<subseteq> {q. \<exists>j\<ge>i. prefix (p @ [j]) q}"
    by (rule subset_trans)
  from a b show ?case by simp
qed

lemma unmount_frame:
  assumes "wf_comp q c" and "\<not> prefix q x"
  shows "blessedNodes (snd (unmountComponent c w)) x = blessedNodes w x \<and>
         screen (snd (unmountComponent c w)) = screen w"
proof (rule unmount_rel(1)[where Q="\<lambda>a b. blessedNodes b x = blessedNodes a x \<and> screen b = screen a"
      and S="{y. prefix q y}"])
  show "ids c \<subseteq> {y. prefix q y}" by (rule wf_ids(1)[OF assms(1)])
next
  fix ID w
  assume "ID \<in> {y. prefix q y}"
  then have "ID \<noteq> x" using assms(2) by auto
  then show "blessedNodes (idops_drop ID w) x = blessedNodes w x \<and> screen (idops_drop ID w) = screen w"
    by (simp add: idops_drop_def)
qed (simp_all add: offAny_def remove_node_def)

lemma unmountEach_frame:
  assumes "wf_comps p i cs" and "\<not> strict_prefix p x"
  shows "blessedNodes (snd (unmountEach cs w)) x = blessedNodes w x \<and>
         screen (snd (unmountEach cs w)) = screen w"
proof (rule unmount_rel(2)[where Q="\<lambda>a b. blessedNodes b x = blessedNodes a x \<and> screen b = screen a"
      and S="{y. strict_prefix p y}"])
  show "ids_list cs \<subseteq> {y. strict_prefix p y}" by (rule wf_ids(2)[OF assms(1)])
next
  fix ID w
  assume "ID \<in> {y. strict_prefix p y}"
  then have "ID \<noteq> x" using assms(2) by auto
  then show "blessedNodes (idops_drop ID w) x = blessedNodes w x \<and> screen (idops_drop ID w) = screen w"
    by (simp add: idops_drop_def)
qed (simp_all add: offAny_def remove_node_def)

lemma getParent_frame:
  assumes "blessedNodes w' (butlast p) = blessedNodes w (butlast p)" and "screen w' = screen w"
  shows "idops_getParent p w' = idops_getParent p w"
  using assms by (simp add: idops_getParent_def idops_get_def)

lemma not_strict_prefix_butlast: "\<not> strict_prefix p (butlast p)"
  using prefix_length_le[of p "butlast p"]
  by (cases p rule: rev_cases) (auto simp: strict_prefix_def)


lemma sibling_prefix_unique: "prefix (p @ [i]) q \<Longrightarrow> prefix (p @ [j]) q \<Longrightarrow> i = j"
  by (auto simp: prefix_def)

lemma not_prefix_butlast: "\<not> prefix p (butlast p) \<or> p = []"
  using prefix_length_le[of p "butlast p"] by (cases p rule: rev_cases) auto

lemma mount_screen: "screen (snd (mountComponent E c p w)) = screen w"
  by (rule mount_rel(1)[where Q="\<lambda>a b. screen b = screen a" and ?p0.0="[]"])
     (simp_all add: prim_defs)

lemma mount_registered:
  shows "mountComponent E c p w = (Inr c', w') \<Longrightarrow> \<forall>q\<in>ids c'. blessedNodes w' q \<noteq> None"
    and "mountEach E p i cs w = (Inr mounted, w') \<Longrightarrow> \<forall>q\<in>ids_list mounted. blessedNodes w' q \<noteq> None"
proof (induction c p w and p i cs w arbitrary: c' w' and mounted w' rule: mount_induct[where E=E])
  case (Component this el rid rc p w)
  from Component.prems obtain parent node w1 children w3 mounted w4 where
    gp: "idops_getParent p w = Inr parent"
    and mn: "mountNode E this parent el w = (Inr node, w1)"
    and ic: "instantiateChildren (childrenToUse (echildren el)) (idops_add p node w1) = (children, w3)"
    and me: "mountEach E p 0 children w3 = (Inr mounted, w4)"
    and c': "c' = Component this el (Some p) (Some mounted)"
    and w': "w' = debouncedRender w4"
    by (rule mountComponent_Inr)
  have "blessedNodes w' p \<noteq> None"
    using mount_registry(1)[OF Component.prems] by simp
  moreover have "\<forall>q\<in>ids_list mounted. blessedNodes w' q \<noteq> None"
    using Component.IH[OF gp mn ic me] w' by (simp add: debouncedRender_def)
  ultimately show ?case using c' by simp
next
  case (Nil p i w)
  then show ?case by simp
next
  case (Cons p i child rest w)
  from Cons.prems obtain child' w1 rest' where
    m: "mountComponent E child (p @ [i]) w = (Inr child', w1)"
    and r: "mountEach E p (Suc i) rest w1 = (Inr rest', w')"
    and e: "mounted = child' # rest'"
    by (rule mountEach_Cons_Inr)
  have wf: "wf_comp (p @ [i]) child'" using mount_struct(1)[OF m] by simp
  have "blessedNodes w' q \<noteq> None" if "q \<in> ids child'" for q
  proof -
    have pq: "prefix (p @ [i]) q" using wf_ids(1)[OF wf] that by auto
    have "\<not> prefix (p @ [j]) q" if "Suc i \<le> j" for j
      using sibling_prefix_unique[OF pq, of j] that by auto
    then have "blessedNodes w' q = blessedNodes w1 q"
      using mountEach_registry_frame[where i="Suc i" and p=p and q=q and E=E and cs=rest and w=w1] r
      by simp
    then show ?thesis using Cons.IH(1)[OF m] that by simp
  qed
  then show ?case using Cons.IH(2)[OF m r] e by auto
qed

lemma unmount_succeeds:
  shows "wf_comp p c \<Longrightarrow> \<forall>q\<in>ids c. blessedNodes w q \<noteq> None \<Longrightarrow>
           idops_getParent p w = Inr parent \<Longrightarrow> \<exists>c'. fst (unmountComponent c w) = Inr c'"
    and "wf_comps p i cs \<Longrightarrow> \<forall>q\<in>ids_list cs. blessedNodes w q \<noteq> None \<Longrightarrow>
           blessedNodes w p \<noteq> None \<or> p = [] \<Longrightarrow> fst (unmountEach cs w) = Inr ()"
proof (induction c w and cs w arbitrary: p parent and p i rule: unmountComponent_unmountEach.induct)
  case (1 this element rid rc w)
  have rid: "rid = Some p" and wfs: "wf_comps p 0 (rendered rc)"
    using "1.prems"(1) by simp_all
  have reg: "blessedNodes w p \<noteq> None" using "1.prems"(2) rid by simp
  obtain r1 w1 where u: "unmountEach (rendered rc) w = (r1, w1)"
    by (cases "unmountEach (rendered rc) w")
  have r1: "r1 = Inr ()"
    using "1.IH"[OF wfs] "1.prems"(2) reg u by simp
  have f: "blessedNodes w1 x = blessedNodes w x \<and> screen w1 = screen w" if "\<not> strict_prefix p x" for x
    using unmountEach_frame[OF wfs that, of w] u by simp
  have "idops_getParent p w1 = idops_getParent p w"
    using f[of "butlast p"] by (intro getParent_frame) (simp_all add: not_strict_prefix_butlast)
  moreover obtain node where "idops_get p w1 = Inr node"
    using f[of p] reg by (auto simp: idops_get_def)
  ultimately show ?case using u r1 rid "1.prems"(3) by simp
next
  case (2 w)
  show ?case by simp
next
  case (3 child rest w)
  have wf1: "wf_comp (p @ [i]) child" and wfr: "wf_comps p (Suc i) rest"
    using "3.prems"(1) by simp_all
  have "\<exists>parent. idops_getParent (p @ [i]) w = Inr parent"
  proof (cases "p = []")
    case True
    then show ?thesis by (simp add: idops_getParent_def)
  next
    case False
    then show ?thesis using "3.prems"(3) by (auto simp: getParent_child idops_get_def)
  qed
  then obtain parent where gp: "idops_getParent (p @ [i]) w = Inr parent" by blast
  obtain r1 w1 where u: "unmountComponent child w = (r1, w1)"
    by (cases "unmountComponent child w")
  from "3.IH"(1)[OF wf1 _ gp] "3.prems"(2) u obtain child' where r1: "r1 = Inr child'"
    by auto
  have f: "blessedNodes w1 x = blessedNodes w x" if "\<not> prefix (p @ [i]) x" for x
    using unmount_frame[OF wf1 that, of w] u by simp
  have "blessedNodes w1 q \<noteq> None" if "q \<in> ids_list rest" for q
  proof -
    from wf_ids_from[OF wfr] that obtain j where "Suc i \<le> j" "prefix (p @ [j]) q" by auto
    then have "\<not> prefix (p @ [i]) q" using sibling_prefix_unique[of p i q j] by auto
    then show ?thesis using f "3.prems"(2) that by simp
  qed
  moreover have "blessedNodes w1 p \<noteq> None \<or> p = []"
    using f[of p] "3.prems"(3) by (simp add: not_prefix_child)
  ultimately have "fst (unmountEach rest w1) = Inr ()"
    using "3.IH"(2)[OF u[symmetric] r1 wfr] by simp
  then show ?case using u r1 by simp
qed

lemma unmount_after_mount:
  assumes "mountComponent E c p w = (Inr c', w')"
  shows "\<exists>c'' w''. unmountComponent c' w' = (Inr c'', w'')"
proof -
  obtain this el rid rc where c: "c = Component this el rid rc" by (cases c)
  from assms[unfolded c] obtain parent where gp: "idops_getParent p w = Inr parent"
    by (rule mountComponent_Inr)
  have wf: "wf_comp p c'" using mount_struct(1)[OF assms] by simp
  have s: "screen w' = screen w" using mount_screen[of E c p w] assms by simp
  have "idops_getParent p w' = idops_getParent p w"
  proof (cases "p = []")
    case True
    then show ?thesis using s by (simp add: idops_getParent_def)
  next
    case False
    then have "\<not> prefix p (butlast p)" using not_prefix_butlast[of p] by simp
    then have "blessedNodes w' (butlast p) = blessedNodes w (butlast p)"
      using mount_registry_frame[of p "butlast p" E c w] assms by simp
    then show ?thesis using s by (rule getParent_frame)
  qed
  then have "idops_getParent p w' = Inr parent" using gp by simp
  from unmount_succeeds(1)[OF wf mount_registered(1)[OF assms] this]
  show ?thesis by (metis prod.collapse)
qed

end
